theory Spec2Isabelle
  imports Main
begin

section \<open>Python strings\<close>

text \<open>
  A Python \<open>str\<close> is a sequence of Unicode code points; a code point is modelled as a
  natural number, so that the whitespace test of \<open>str.strip\<close> covers the characters beyond
  Latin-1 as well. \<open>str\<close> turns an ASCII literal of the source into such a sequence.
\<close>

type_synonym pystr = "nat list"

definition str :: "string \<Rightarrow> pystr" where
  "str s = map of_char s"

text \<open>
  \<open>str.isspace\<close> on one code point, as CPython tabulates it: U+0009..U+000D,
  U+001C..U+0020, U+0085, U+00A0, U+1680, U+2000..U+200A, U+2028, U+2029, U+202F, U+205F
  and U+3000.
\<close>

definition isspace :: "nat \<Rightarrow> bool" where
  "isspace c \<longleftrightarrow>
     (9 \<le> c \<and> c \<le> 13) \<or> (28 \<le> c \<and> c \<le> 32) \<or> c = 133 \<or> c = 160 \<or> c = 5760 \<or>
     (8192 \<le> c \<and> c \<le> 8202) \<or> c = 8232 \<or> c = 8233 \<or> c = 8239 \<or> c = 8287 \<or> c = 12288"

text \<open>\<open>s.strip()\<close>: leading and trailing whitespace removed.\<close>

definition strip :: "pystr \<Rightarrow> pystr" where
  "strip s = rev (dropWhile isspace (rev (dropWhile isspace s)))"

text \<open>
  \<open>s.split(sep)\<close> for a separator of one character: the fragments between the
  occurrences of \<open>sep\<close>, empty fragments included, so the result is never the empty list
  (\<open>''.split(';')\<close> is \<open>['']\<close>).
\<close>

fun split :: "nat \<Rightarrow> pystr \<Rightarrow> pystr list" where
  "split sep [] = [[]]"
| "split sep (c # cs) =
     (if c = sep then [] # split sep cs
      else (case split sep cs of [] \<Rightarrow> [[c]] | f # fs \<Rightarrow> (c # f) # fs))"

text \<open>Truth value of a \<open>str\<close> in a condition: the empty string is false.\<close>

definition truthy :: "pystr \<Rightarrow> bool" where
  "truthy s \<longleftrightarrow> s \<noteq> []"

definition semicolon :: nat where
  "semicolon = of_char CHR '';''"

text \<open>
  The statement derivation of \<open>upgrade\<close>:
  \<^verbatim>\<open>statements = [stmt.strip() for stmt in schema_sql.split(';') if stmt.strip()]\<close>
\<close>

definition statements :: "pystr \<Rightarrow> pystr list" where
  "statements schema_sql =
     map strip (filter (\<lambda>stmt. truthy (strip stmt)) (split semicolon schema_sql))"


section \<open>Paths\<close>

text \<open>
  \<open>os.path.dirname\<close> and \<open>os.path.join\<close> (two arguments) of the POSIX flavour, which work
  on the text of the path only:
  \<^verbatim>\<open>
  def dirname(p):
      i = p.rfind('/') + 1
      head = p[:i]
      if head and head != '/'*len(head):
          head = head.rstrip('/')
      return head

  def join(a, b):
      if b.startswith('/'): return b
      elif not a or a.endswith('/'): return a + b
      else: return a + '/' + b
  \<close>
\<close>

definition slash :: nat where
  "slash = of_char CHR ''/''"

definition dirname :: "pystr \<Rightarrow> pystr" where
  "dirname p =
     (let head = rev (dropWhile (\<lambda>c. c \<noteq> slash) (rev p))
      in if head \<noteq> [] \<and> head \<noteq> replicate (length head) slash
         then rev (dropWhile (\<lambda>c. c = slash) (rev head))
         else head)"

definition join :: "pystr \<Rightarrow> pystr \<Rightarrow> pystr" where
  "join a b =
     (if b \<noteq> [] \<and> hd b = slash then b
      else if a = [] \<or> last a = slash then a @ b
      else a @ [slash] @ b)"

text \<open>
  The location of the schema document, computed from \<open>__file__\<close>:
  \<^verbatim>\<open>
  schema_path = os.path.join(
      os.path.dirname(os.path.dirname(os.path.dirname(__file__))),
      'schema.sql')
  \<close>
\<close>

definition schema_path :: "pystr \<Rightarrow> pystr" where
  "schema_path file = join (dirname (dirname (dirname file))) (str ''schema.sql'')"

section \<open>Revision metadata\<close>

text \<open>
  The four module-level names read by the revision chain resolver. A value of type
  \<open>Union[str, Sequence[str], None]\<close> is an optional \<open>labels\<close>.
  \<^verbatim>\<open>
  revision: str = '001'
  down_revision: Union[str, None] = None
  branch_labels: Union[str, Sequence[str], None] = None
  depends_on: Union[str, Sequence[str], None] = None
  \<close>
\<close>

datatype labels = One pystr | Many "pystr list"

record module_globals =
  revision :: pystr
  down_revision :: "pystr option"
  branch_labels :: "labels option"
  depends_on :: "labels option"

definition module_init :: module_globals where
  "module_init =
     \<lparr>revision = str ''001'', down_revision = None, branch_labels = None, depends_on = None\<rparr>"

section \<open>The database behind the connection\<close>

text \<open>
  Modelled from the spec: the SQL engine behind the connection and the migration tool's
  operations (\<open>conn.execute\<close>, \<open>op.execute\<close>, \<open>op.drop_table\<close>) are external collaborators,
  absent from the repository. The spec fixes their failure semantics: a
  \<open>DROP ... IF EXISTS ... CASCADE\<close> tolerates the object being absent already, and a table
  drop (which has no \<open>IF EXISTS\<close>) fails if the table does not exist or still has
  dependents. A database is the set of its objects and a dependency relation
  (\<open>(a, b)\<close>: \<open>a\<close> depends on \<open>b\<close>). A statement that fails has no effect. The meaning of
  every other SQL statement is a parameter (\<open>other\<close>) of the model.
\<close>

datatype obj = View pystr | Table pystr | Function pystr | Extension pystr

record database =
  objects :: "obj set"
  depends :: "(obj \<times> obj) set"

datatype exn =
    OSError nat
  | UndefinedTable pystr
  | DependentObjectsStillExist pystr
  | DatabaseError pystr

type_synonym sql_semantics = "pystr \<Rightarrow> database \<Rightarrow> exn + database"

text \<open>The existing objects that depend on \<open>x\<close>, directly or through other objects.\<close>

definition dependents :: "database \<Rightarrow> obj \<Rightarrow> obj set" where
  "dependents d x = {y \<in> objects d. (y, x) \<in> (depends d)\<^sup>+}"

definition remove_objects :: "obj set \<Rightarrow> database \<Rightarrow> database" where
  "remove_objects xs d =
     d\<lparr>objects := objects d - xs,
       depends := {(a, b) \<in> depends d. a \<notin> xs \<and> b \<notin> xs}\<rparr>"

text \<open>\<open>DROP <kind> IF EXISTS <name> CASCADE\<close>\<close>

definition drop_if_exists_cascade :: "obj \<Rightarrow> database \<Rightarrow> database" where
  "drop_if_exists_cascade x d =
     (if x \<in> objects d then remove_objects (insert x (dependents d x)) d else d)"

text \<open>\<open>DROP TABLE <name>\<close>, as \<open>op.drop_table(name)\<close> emits it.\<close>

definition drop_table :: "pystr \<Rightarrow> database \<Rightarrow> exn + database" where
  "drop_table name d =
     (if Table name \<notin> objects d then Inl (UndefinedTable name)
      else if \<exists>y \<in> objects d. (y, Table name) \<in> depends d
      then Inl (DependentObjectsStillExist name)
      else Inr (remove_objects {Table name} d))"

text \<open>Recognising the guarded drops in the text of a statement.\<close>

fun strip_prefix :: "pystr \<Rightarrow> pystr \<Rightarrow> pystr option" where
  "strip_prefix [] s = Some s"
| "strip_prefix (p # ps) [] = None"
| "strip_prefix (p # ps) (c # cs) = (if p = c then strip_prefix ps cs else None)"

definition between :: "pystr \<Rightarrow> pystr \<Rightarrow> pystr \<Rightarrow> pystr option" where
  "between pre suf s =
     (case strip_prefix pre s of
        None \<Rightarrow> None
      | Some t \<Rightarrow> map_option rev (strip_prefix (rev suf) (rev t)))"

definition dquote :: nat where
  "dquote = of_char (CHR 0x22)"

definition unquote :: "pystr \<Rightarrow> pystr" where
  "unquote n =
     (if 2 \<le> length n \<and> hd n = dquote \<and> last n = dquote then butlast (tl n) else n)"

definition parse_drop_if_exists :: "pystr \<Rightarrow> obj option" where
  "parse_drop_if_exists s =
     (case between (str ''DROP VIEW IF EXISTS '') (str '' CASCADE'') s of
        Some n \<Rightarrow> Some (View (unquote n))
      | None \<Rightarrow>
     (case between (str ''DROP FUNCTION IF EXISTS '') (str '' CASCADE'') s of
        Some n \<Rightarrow> Some (Function (unquote n))
      | None \<Rightarrow>
     (case between (str ''DROP EXTENSION IF EXISTS '') (str '' CASCADE'') s of
        Some n \<Rightarrow> Some (Extension (unquote n))
      | None \<Rightarrow> None)))"

text \<open>What reaches the connection: a statement to execute or a table drop.\<close>

datatype request = Execute pystr | DropTable pystr

fun engine :: "sql_semantics \<Rightarrow> request \<Rightarrow> database \<Rightarrow> exn + database" where
  "engine other (Execute s) d =
     (case parse_drop_if_exists s of
        Some x \<Rightarrow> Inr (drop_if_exists_cascade x d)
      | None \<Rightarrow> other s d)"
| "engine other (DropTable name) d = drop_table name d"

section \<open>The world of a migration run\<close>

text \<open>
  The state a run can read or change: the module's globals, the file system as seen by
  \<open>open(path, 'r')\<close> followed by \<open>read()\<close> (the text of the file, or the error number of
  the \<open>OSError\<close> raised), the database, and the requests sent to the connection so far,
  oldest first. A run returns or raises, and leaves a world behind in both cases.
\<close>

record world =
  globals :: module_globals
  files :: "pystr \<Rightarrow> nat + pystr"
  db :: database
  sent :: "request list"

datatype outcome = Returned | Raised exn

definition perform :: "sql_semantics \<Rightarrow> request \<Rightarrow> world \<Rightarrow> outcome \<times> world" where
  "perform other r w =
     (let w1 = w\<lparr>sent := sent w @ [r]\<rparr>
      in case engine other r (db w) of
           Inl e \<Rightarrow> (Raised e, w1)
         | Inr d \<Rightarrow> (Returned, w1\<lparr>db := d\<rparr>))"

text \<open>\<open>conn.execute(sa.text(statement))\<close>, \<open>op.execute(sql)\<close> and \<open>op.drop_table(name)\<close>.\<close>

definition conn_execute :: "sql_semantics \<Rightarrow> pystr \<Rightarrow> world \<Rightarrow> outcome \<times> world" where
  "conn_execute other statement = perform other (Execute statement)"

definition op_execute :: "sql_semantics \<Rightarrow> pystr \<Rightarrow> world \<Rightarrow> outcome \<times> world" where
  "op_execute other sql = perform other (Execute sql)"

definition op_drop_table :: "sql_semantics \<Rightarrow> pystr \<Rightarrow> world \<Rightarrow> outcome \<times> world" where
  "op_drop_table other name = perform other (DropTable name)"

section \<open>upgrade\<close>

text \<open>
  \<^verbatim>\<open>
  for statement in statements:
      if statement:
          conn.execute(sa.text(statement))
  \<close>
  An exception leaves the loop and the function.
\<close>

fun execute_statements :: "sql_semantics \<Rightarrow> pystr list \<Rightarrow> world \<Rightarrow> outcome \<times> world" where
  "execute_statements other [] w = (Returned, w)"
| "execute_statements other (statement # rest) w =
     (if truthy statement then
        (case conn_execute other statement w of
           (Raised e, w') \<Rightarrow> (Raised e, w')
         | (Returned, w') \<Rightarrow> execute_statements other rest w')
      else execute_statements other rest w)"

text \<open>
  \<open>upgrade\<close>, with \<open>__file__\<close> as the argument \<open>file\<close>: read the schema document (an
  \<open>OSError\<close> of \<open>open\<close> propagates), derive the statements, execute them.
\<close>

definition upgrade :: "sql_semantics \<Rightarrow> pystr \<Rightarrow> world \<Rightarrow> outcome \<times> world" where
  "upgrade other file w =
     (case files w (schema_path file) of
        Inl errno \<Rightarrow> (Raised (OSError errno), w)
      | Inr schema_sql \<Rightarrow> execute_statements other (statements schema_sql) w)"

text \<open>
  The effect on the database of executing one more statement, and so, folded over a list,
  of executing statements in order on the connection: an error stays. It is stated on
  the engine alone, without the loop of \<open>upgrade\<close>, to say what the loop has to do.
\<close>

definition then_execute :: "sql_semantics \<Rightarrow> exn + database \<Rightarrow> pystr \<Rightarrow> exn + database" where
  "then_execute other r s = (case r of Inl e \<Rightarrow> Inl e | Inr d \<Rightarrow> engine other (Execute s) d)"

section \<open>downgrade\<close>

text \<open>Calls made one after the other; the first that raises ends the sequence.\<close>

fun run_all :: "(world \<Rightarrow> outcome \<times> world) list \<Rightarrow> world \<Rightarrow> outcome \<times> world" where
  "run_all [] w = (Returned, w)"
| "run_all (call # calls) w =
     (case call w of
        (Raised e, w') \<Rightarrow> (Raised e, w')
      | (Returned, w') \<Rightarrow> run_all calls w')"

definition downgrade :: "sql_semantics \<Rightarrow> world \<Rightarrow> outcome \<times> world" where
  "downgrade other =
     run_all
      [op_execute other (str ''DROP VIEW IF EXISTS v_hitl_queue CASCADE''),
       op_execute other (str ''DROP VIEW IF EXISTS v_client_token_usage CASCADE''),
       op_execute other (str ''DROP VIEW IF EXISTS v_active_processes CASCADE''),
       op_drop_table other (str ''notifications''),
       op_drop_table other (str ''output_actions''),
       op_drop_table other (str ''audit_logs''),
       op_drop_table other (str ''documents''),
       op_drop_table other (str ''processes''),
       op_drop_table other (str ''configurations''),
       op_drop_table other (str ''prompts''),
       op_drop_table other (str ''process_types''),
       op_drop_table other (str ''users''),
       op_drop_table other (str ''clients''),
       op_execute other (str ''DROP FUNCTION IF EXISTS update_updated_at_column() CASCADE''),
       op_execute other
         (str ''DROP EXTENSION IF EXISTS '' @ [dquote] @ str ''uuid-ossp'' @ [dquote] @
          str '' CASCADE'')]"

section \<open>The teardown as the spec lists it\<close>

text \<open>
  The views, tables, function and extension that the spec names for the downgrade path, in
  the order it gives them, and the requests that drop them: the three guarded view drops,
  the table drops, the guarded function drop and the guarded extension drop. They are
  compared with \<open>downgrade\<close> below.
\<close>

definition dropped_views :: "pystr list" where
  "dropped_views = [str ''v_hitl_queue'', str ''v_client_token_usage'', str ''v_active_processes'']"

definition dropped_tables :: "pystr list" where
  "dropped_tables =
     [str ''notifications'', str ''output_actions'', str ''audit_logs'', str ''documents'',
      str ''processes'', str ''configurations'', str ''prompts'', str ''process_types'',
      str ''users'', str ''clients'']"

definition guarded_drops :: "pystr list" where
  "guarded_drops =
     map (\<lambda>v. str ''DROP VIEW IF EXISTS '' @ v @ str '' CASCADE'') dropped_views @
     [str ''DROP FUNCTION IF EXISTS update_updated_at_column() CASCADE'',
      str ''DROP EXTENSION IF EXISTS '' @ [dquote] @ str ''uuid-ossp'' @ [dquote] @
      str '' CASCADE'']"

definition teardown :: "request list" where
  "teardown =
     map Execute (take 3 guarded_drops) @ map DropTable dropped_tables @
     map Execute (drop 3 guarded_drops)"

definition named_objects :: "obj list" where
  "named_objects =
     map View dropped_views @ map Table dropped_tables @
     [Function (str ''update_updated_at_column()''), Extension (str ''uuid-ossp'')]"

text \<open>The object a request drops, and the tables named by the table drops of a log.\<close>

fun dropped_object :: "request \<Rightarrow> obj option" where
  "dropped_object (Execute s) = parse_drop_if_exists s"
| "dropped_object (DropTable name) = Some (Table name)"

fun table_drops :: "request list \<Rightarrow> pystr list" where
  "table_drops [] = []"
| "table_drops (Execute s # rs) = table_drops rs"
| "table_drops (DropTable name # rs) = name # table_drops rs"

section \<open>A sample run\<close>

text \<open>
  Concrete inputs on which the theorems below are instantiated: an SQL semantics that
  understands \<open>CREATE TABLE <name> ...\<close> only (the table must not exist yet), the
  migration file at its place in the repository, an empty database with the schema
  document at \<open>/repo/db/schema.sql\<close> and no other file (error number 2), and a schema
  document that creates the ten tables, parents first.
\<close>

definition create_table :: sql_semantics where
  "create_table s d =
     (case strip_prefix (str ''CREATE TABLE '') s of
        None \<Rightarrow> Inl (DatabaseError s)
      | Some rest \<Rightarrow>
          (let name = takeWhile (\<lambda>c. c \<noteq> 32) rest
           in if Table name \<in> objects d then Inl (DatabaseError s)
              else Inr (d\<lparr>objects := insert (Table name) (objects d)\<rparr>)))"

definition sample_file :: pystr where
  "sample_file = str ''/repo/db/migrations/versions/001_initial_schema.py''"

definition sample_world :: "pystr \<Rightarrow> world" where
  "sample_world schema_sql =
     \<lparr>globals = module_init,
      files = (\<lambda>path. if path = str ''/repo/db/schema.sql'' then Inr schema_sql else Inl 2),
      db = \<lparr>objects = {}, depends = {}\<rparr>,
      sent = []\<rparr>"

definition sample_items :: "(pystr \<times> pystr \<times> pystr) list" where
  "sample_items =
     map (\<lambda>name. ([10], str ''CREATE TABLE '' @ name @ str '' (id int)'', [32]))
       (rev dropped_tables)"

definition sample_schema :: pystr where
  "sample_schema = concat (map (\<lambda>(l, s, r). l @ s @ r @ [semicolon]) sample_items) @ [10]"

definition sample_upgraded :: world where
  "sample_upgraded =
     (sample_world sample_schema)
       \<lparr>sent := map (\<lambda>(l, s, r). Execute s) sample_items,
        db := \<lparr>objects = Table ` set dropped_tables, depends = {}\<rparr>\<rparr>"

definition sample_downgraded :: world where
  "sample_downgraded =
     sample_upgraded\<lparr>sent := sent sample_upgraded @ teardown,
                     db := \<lparr>objects = {}, depends = {}\<rparr>\<rparr>"

text \<open>
  The sample database after its upgrade, with a view on \<open>processes\<close> and with \<open>users\<close>
  referring to \<open>clients\<close>.
\<close>

definition sample_linked :: world where
  "sample_linked =
     sample_upgraded
       \<lparr>db := \<lparr>objects = insert (View (str ''v_hitl_queue'')) (Table ` set dropped_tables),
                 depends = {(Table (str ''users''), Table (str ''clients'')),
                            (View (str ''v_hitl_queue''), Table (str ''processes''))}\<rparr>\<rparr>"

text \<open>The schema document of the end-to-end example, and two variants of it.\<close>

definition two_tables :: pystr where
  "two_tables = str ''CREATE TABLE t (id int); CREATE TABLE u (id int);''"

definition repeated_table :: pystr where
  "repeated_table =
     str ''CREATE TABLE t (id int); CREATE TABLE t (id int); CREATE TABLE u (id int);''"

definition clients_only :: pystr where
  "clients_only = str ''CREATE TABLE clients (id int);''"

section \<open>Splitting and stripping\<close>

lemma split_not_Nil: "split sep s \<noteq> []"
  by (induction s) (auto split: list.splits)

lemma split_no_sep: "sep \<notin> set s \<Longrightarrow> split sep s = [s]"
  by (induction s) auto

lemma split_append_sep:
  "sep \<notin> set f \<Longrightarrow> split sep (f @ sep # rest) = f # split sep rest"
  by (induction f) auto

lemma split_fragment_no_sep: "f \<in> set (split sep s) \<Longrightarrow> sep \<notin> set f"
proof (induction s arbitrary: f)
  case Nil
  then show ?case by simp
next
  case (Cons c cs)
  show ?case
  proof (cases "c = sep")
    case True
    with Cons show ?thesis by auto
  next
    case False
    obtain g gs where g: "split sep cs = g # gs"
      using split_not_Nil [of sep cs] by (cases "split sep cs") auto
    with Cons False show ?thesis by auto
  qed
qed

lemma split_terminated:
  "\<forall>f \<in> set frags. sep \<notin> set f \<Longrightarrow> sep \<notin> set final \<Longrightarrow>
   split sep (concat (map (\<lambda>f. f @ [sep]) frags) @ final) = frags @ [final]"
  by (induction frags) (simp_all add: split_no_sep split_append_sep)

lemma strip_whitespace: "\<forall>c \<in> set t. isspace c \<Longrightarrow> strip t = []"
  by (auto simp: strip_def dest: set_dropWhileD)

lemma dropWhile_pad:
  "\<forall>c \<in> set l. P c \<Longrightarrow> s \<noteq> [] \<Longrightarrow> \<not> P (hd s) \<Longrightarrow> dropWhile P (l @ s @ r) = s @ r"
  by (induction l) (auto simp: neq_Nil_conv)

lemma strip_padded:
  assumes "\<forall>c \<in> set l. isspace c" and "\<forall>c \<in> set r. isspace c"
    and "s \<noteq> []" and "\<not> isspace (hd s)" and "\<not> isspace (last s)"
  shows "strip (l @ s @ r) = s"
proof -
  have "dropWhile isspace (l @ s @ r) = s @ r"
    using assms by (intro dropWhile_pad) auto
  moreover have "dropWhile isspace (rev r @ rev s @ []) = rev s @ []"
    using assms by (intro dropWhile_pad) (auto simp: hd_rev)
  ultimately show ?thesis by (simp add: strip_def)
qed

lemma set_strip: "set (strip s) \<subseteq> set s"
proof -
  have "set (strip s) = set (dropWhile isspace (rev (dropWhile isspace s)))"
    by (simp add: strip_def)
  also have "\<dots> \<subseteq> set (rev (dropWhile isspace s))" by (rule set_dropWhileD [THEN subsetI])
  also have "\<dots> \<subseteq> set s" using set_dropWhileD by fastforce
  finally show ?thesis .
qed

lemma hd_strip: "strip s \<noteq> [] \<Longrightarrow> \<not> isspace (hd (strip s))"
proof -
  assume ne: "strip s \<noteq> []"
  define d where "d = dropWhile isspace s"
  define e where "e = dropWhile isspace (rev d)"
  have se: "strip s = rev e" by (simp add: strip_def d_def e_def)
  with ne have "e \<noteq> []" by simp
  then have "d \<noteq> []" by (auto simp: e_def)
  then have hd: "\<not> isspace (hd d)" unfolding d_def by (rule hd_dropWhile)
  have "rev d = takeWhile isspace (rev d) @ e" by (simp add: e_def)
  then have "d = rev e @ rev (takeWhile isspace (rev d))"
    by (metis rev_append rev_rev_ident)
  with \<open>e \<noteq> []\<close> have "hd d = hd (rev e)" by (metis hd_append2 rev_is_Nil_conv)
  with hd se show ?thesis by simp
qed

lemma last_strip: "strip s \<noteq> [] \<Longrightarrow> \<not> isspace (last (strip s))"
proof -
  assume ne: "strip s \<noteq> []"
  define e where "e = dropWhile isspace (rev (dropWhile isspace s))"
  have se: "strip s = rev e" by (simp add: strip_def e_def)
  with ne have "e \<noteq> []" by simp
  then have "\<not> isspace (hd e)" unfolding e_def by (rule hd_dropWhile)
  with \<open>e \<noteq> []\<close> se show ?thesis by (simp add: last_rev)
qed

lemma statements_properties:
  assumes "s \<in> set (statements schema_sql)"
  shows "truthy s" and "\<not> isspace (hd s)" and "\<not> isspace (last s)" and "semicolon \<notin> set s"
proof -
  from assms obtain f where f: "f \<in> set (split semicolon schema_sql)"
    and t: "truthy (strip f)" and s: "s = strip f"
    by (auto simp: statements_def)
  show "truthy s" using t s by simp
  then have "strip f \<noteq> []" using s by (simp add: truthy_def)
  then show "\<not> isspace (hd s)" and "\<not> isspace (last s)"
    using s hd_strip last_strip by simp_all
  have "semicolon \<notin> set f" using f by (rule split_fragment_no_sep)
  then show "semicolon \<notin> set s" using s set_strip by blast
qed

lemma filter_truthy_statements: "filter truthy (statements schema_sql) = statements schema_sql"
  by (simp add: statements_def filter_map o_def)

lemma statements_terminated:
  assumes "\<forall>(l, s, r) \<in> set items.
             (\<forall>c \<in> set l. isspace c) \<and> (\<forall>c \<in> set r. isspace c) \<and>
             s \<noteq> [] \<and> semicolon \<notin> set s \<and> \<not> isspace (hd s) \<and> \<not> isspace (last s)"
    and "semicolon \<notin> set final"
  shows "statements (concat (map (\<lambda>(l, s, r). l @ s @ r @ [semicolon]) items) @ final) =
         map (\<lambda>(l, s, r). s) items @ (if strip final = [] then [] else [strip final])"
proof -
  let ?frags = "map (\<lambda>(l, s, r). l @ s @ r) items"
  have ws: "semicolon \<notin> set l" if "\<forall>c \<in> set l. isspace c" for l
    using that by (auto simp: isspace_def semicolon_def)
  have doc: "concat (map (\<lambda>(l, s, r). l @ s @ r @ [semicolon]) items) =
             concat (map (\<lambda>f. f @ [semicolon]) ?frags)"
    by (simp add: o_def case_prod_unfold)
  have "\<forall>f \<in> set ?frags. semicolon \<notin> set f"
    using assms(1) ws by fastforce
  then have sp: "split semicolon (concat (map (\<lambda>f. f @ [semicolon]) ?frags) @ final) =
                 ?frags @ [final]"
    using assms(2) by (rule split_terminated)
  have st: "strip (l @ s @ r) = s" if "(l, s, r) \<in> set items" for l s r
    using assms(1) that by (intro strip_padded) auto
  have keep: "filter (\<lambda>stmt. truthy (strip stmt)) ?frags = ?frags"
    using assms(1) st by (intro filter_True) (auto simp: truthy_def)
  have "map strip ?frags = map (\<lambda>(l, s, r). s) items"
    using st by (auto simp: o_def)
  with keep sp doc show ?thesis
    by (simp add: statements_def truthy_def)
qed

lemma statements_fragments:
  assumes "\<forall>f \<in> set frags. semicolon \<notin> set f" and "semicolon \<notin> set final"
  shows "statements (concat (map (\<lambda>f. f @ [semicolon]) frags) @ final) =
         filter (\<lambda>s. s \<noteq> []) (map strip (frags @ [final]))"
proof -
  have "split semicolon (concat (map (\<lambda>f. f @ [semicolon]) frags) @ final) = frags @ [final]"
    using assms by (rule split_terminated)
  then show ?thesis
    by (simp add: statements_def truthy_def filter_map o_def)
qed

lemma strip_padded_or_blank:
  assumes "\<forall>c \<in> set l. isspace c" and "\<forall>c \<in> set r. isspace c"
    and "s = [] \<or> \<not> isspace (hd s) \<and> \<not> isspace (last s)"
  shows "strip (l @ s @ r) = s"
proof (cases "s = []")
  case True
  then show ?thesis using assms(1,2) strip_whitespace [of "l @ r"] by auto
next
  case False
  with assms show ?thesis by (intro strip_padded) auto
qed

lemma whitespace_no_semicolon: "\<forall>c \<in> set l. isspace c \<Longrightarrow> semicolon \<notin> set l"
  by (auto simp: isspace_def semicolon_def)

lemma statements_padded:
  assumes "\<forall>(l, s, r) \<in> set (items @ [(l', s', r')]).
             (\<forall>c \<in> set l. isspace c) \<and> (\<forall>c \<in> set r. isspace c) \<and> semicolon \<notin> set s \<and>
             (s = [] \<or> \<not> isspace (hd s) \<and> \<not> isspace (last s))"
  shows "statements (concat (map (\<lambda>(l, s, r). l @ s @ r @ [semicolon]) items) @ l' @ s' @ r') =
         filter (\<lambda>s. s \<noteq> []) (map (\<lambda>(l, s, r). s) items @ [s'])"
proof -
  let ?frags = "map (\<lambda>(l, s, r). l @ s @ r) items"
  have doc: "concat (map (\<lambda>(l, s, r). l @ s @ r @ [semicolon]) items) =
             concat (map (\<lambda>f. f @ [semicolon]) ?frags)"
    by (simp add: o_def case_prod_unfold)
  have one: "semicolon \<notin> set (l @ s @ r) \<and> strip (l @ s @ r) = s"
    if "(l, s, r) \<in> set (items @ [(l', s', r')])" for l s r
  proof -
    from assms that have a: "\<forall>c \<in> set l. isspace c" "\<forall>c \<in> set r. isspace c"
      "semicolon \<notin> set s" "s = [] \<or> \<not> isspace (hd s) \<and> \<not> isspace (last s)"
      by blast+
    show ?thesis
      using a whitespace_no_semicolon [of l] whitespace_no_semicolon [of r]
        strip_padded_or_blank [of l r s] by simp
  qed
  have "\<forall>f \<in> set ?frags. semicolon \<notin> set f"
    using one by fastforce
  moreover have "semicolon \<notin> set (l' @ s' @ r')" using one [of l' s' r'] by simp
  ultimately have main: "statements (concat (map (\<lambda>f. f @ [semicolon]) ?frags) @ l' @ s' @ r') =
      filter (\<lambda>s. s \<noteq> []) (map strip (?frags @ [l' @ s' @ r']))"
    by (rule statements_fragments)
  have "map strip ?frags = map (\<lambda>(l, s, r). s) items"
    using one by (auto simp: o_def)
  moreover have "strip (l' @ s' @ r') = s'" using one [of l' s' r'] by simp
  ultimately have m: "map strip (?frags @ [l' @ s' @ r']) = map (\<lambda>(l, s, r). s) items @ [s']"
    by simp
  show ?thesis by (simp only: doc main m)
qed

text \<open>
  Every text is a document of this form: it is the concatenation of its fragments, and
  every fragment is its stripped part with whitespace around it.
\<close>

lemma split_concat:
  "concat (map (\<lambda>f. f @ [sep]) (butlast (split sep s))) @ last (split sep s) = s"
proof (induction s)
  case Nil
  then show ?case by simp
next
  case (Cons c cs)
  obtain f fs where fs: "split sep cs = f # fs"
    using split_not_Nil [of sep cs] by (cases "split sep cs") auto
  have IH: "concat (map (\<lambda>f. f @ [sep]) (butlast (f # fs))) @ last (f # fs) = cs"
    using Cons.IH unfolding fs .
  show ?case
  proof (cases "c = sep")
    case True
    then have "split sep (c # cs) = [] # f # fs" by (simp add: fs)
    moreover have "concat (map (\<lambda>f. f @ [sep]) (butlast ([] # f # fs))) @ last ([] # f # fs) =
        sep # (concat (map (\<lambda>f. f @ [sep]) (butlast (f # fs))) @ last (f # fs))"
      by simp
    ultimately show ?thesis by (simp only: IH True)
  next
    case False
    then have "split sep (c # cs) = (c # f) # fs" by (simp add: fs)
    moreover have "concat (map (\<lambda>f. f @ [sep]) (butlast ((c # f) # fs))) @ last ((c # f) # fs) =
        c # (concat (map (\<lambda>f. f @ [sep]) (butlast (f # fs))) @ last (f # fs))"
      by simp
    ultimately show ?thesis by (simp only: IH)
  qed
qed

lemma fragment_padded:
  "\<exists>l r. f = l @ strip f @ r \<and> (\<forall>c \<in> set l. isspace c) \<and> (\<forall>c \<in> set r. isspace c)"
proof -
  define d where "d = dropWhile isspace f"
  define e where "e = dropWhile isspace (rev d)"
  define t where "t = takeWhile isspace (rev d)"
  have "rev d = t @ e" by (simp add: t_def e_def)
  then have de: "d = rev e @ rev t" by (metis rev_append rev_rev_ident)
  have se: "strip f = rev e" by (simp add: strip_def d_def e_def)
  have "f = takeWhile isspace f @ d" by (simp add: d_def)
  also note de
  finally have "f = takeWhile isspace f @ strip f @ rev t" by (simp only: se)
  moreover have "\<forall>c \<in> set (takeWhile isspace f). isspace c"
    by (auto dest: set_takeWhileD)
  moreover have "\<forall>c \<in> set (rev t). isspace c"
    by (auto simp: t_def dest: set_takeWhileD)
  ultimately show ?thesis by blast
qed

lemma fragments_padded:
  "\<forall>f \<in> set fs. semicolon \<notin> set f \<Longrightarrow>
   \<exists>items. map (\<lambda>(l, s, r). l @ s @ r) items = fs \<and>
     (\<forall>(l, s, r) \<in> set items.
        (\<forall>c \<in> set l. isspace c) \<and> (\<forall>c \<in> set r. isspace c) \<and> semicolon \<notin> set s \<and>
        (s = [] \<or> \<not> isspace (hd s) \<and> \<not> isspace (last s)))"
proof (induction fs)
  case Nil
  then show ?case by simp
next
  case (Cons f fs)
  from Cons.prems have "\<forall>f \<in> set fs. semicolon \<notin> set f" by simp
  from Cons.IH [OF this] obtain items where i: "map (\<lambda>(l, s, r). l @ s @ r) items = fs"
    "\<forall>(l, s, r) \<in> set items.
        (\<forall>c \<in> set l. isspace c) \<and> (\<forall>c \<in> set r. isspace c) \<and> semicolon \<notin> set s \<and>
        (s = [] \<or> \<not> isspace (hd s) \<and> \<not> isspace (last s))"
    by blast
  obtain l r where f: "f = l @ strip f @ r" "\<forall>c \<in> set l. isspace c" "\<forall>c \<in> set r. isspace c"
    using fragment_padded [of f] by blast
  have "semicolon \<notin> set (strip f)" using Cons.prems set_strip [of f] by auto
  moreover have "strip f = [] \<or> \<not> isspace (hd (strip f)) \<and> \<not> isspace (last (strip f))"
    using hd_strip [of f] last_strip [of f] by blast
  ultimately have b: "\<forall>(l, s, r) \<in> set ((l, strip f, r) # items).
        (\<forall>c \<in> set l. isspace c) \<and> (\<forall>c \<in> set r. isspace c) \<and> semicolon \<notin> set s \<and>
        (s = [] \<or> \<not> isspace (hd s) \<and> \<not> isspace (last s))"
    using i(2) f(2,3) by simp
  have a: "map (\<lambda>(l, s, r). l @ s @ r) ((l, strip f, r) # items) = f # fs"
    using i(1) f(1) [symmetric] by simp
  show ?case
    by (rule exI [of _ "(l, strip f, r) # items"]) (rule conjI [OF a b])
qed

lemma document_padded:
  "\<exists>items l' s' r'.
     (\<forall>(l, s, r) \<in> set (items @ [(l', s', r')]).
        (\<forall>c \<in> set l. isspace c) \<and> (\<forall>c \<in> set r. isspace c) \<and> semicolon \<notin> set s \<and>
        (s = [] \<or> \<not> isspace (hd s) \<and> \<not> isspace (last s))) \<and>
     document = concat (map (\<lambda>(l, s, r). l @ s @ r @ [semicolon]) items) @ l' @ s' @ r'"
proof -
  let ?fs = "split semicolon document"
  have "\<forall>f \<in> set ?fs. semicolon \<notin> set f"
    using split_fragment_no_sep by blast
  from fragments_padded [OF this] obtain all_items where a:
    "map (\<lambda>(l, s, r). l @ s @ r) all_items = ?fs"
    "\<forall>(l, s, r) \<in> set all_items.
        (\<forall>c \<in> set l. isspace c) \<and> (\<forall>c \<in> set r. isspace c) \<and> semicolon \<notin> set s \<and>
        (s = [] \<or> \<not> isspace (hd s) \<and> \<not> isspace (last s))"
    by blast
  have "all_items \<noteq> []" using a(1) split_not_Nil [of semicolon document] by auto
  then obtain items final where ai: "all_items = items @ [final]"
    by (metis append_butlast_last_id)
  obtain l' s' r' where fin: "final = (l', s', r')" by (cases final)
  have fs: "?fs = map (\<lambda>(l, s, r). l @ s @ r) items @ [l' @ s' @ r']"
    using a(1) ai fin by simp
  have "butlast ?fs = map (\<lambda>(l, s, r). l @ s @ r) items" "last ?fs = l' @ s' @ r'"
    by (simp_all add: fs)
  then have "document =
      concat (map (\<lambda>f. f @ [semicolon]) (map (\<lambda>(l, s, r). l @ s @ r) items)) @ l' @ s' @ r'"
    using split_concat [of semicolon document] by simp
  then have "document = concat (map (\<lambda>(l, s, r). l @ s @ r @ [semicolon]) items) @ l' @ s' @ r'"
    by (simp add: o_def case_prod_unfold)
  with a(2) ai fin show ?thesis by blast
qed

section \<open>Runs\<close>

lemma perform_sent: "sent (snd (perform other r w)) = sent w @ [r]"
  by (simp add: perform_def Let_def split: sum.splits)

lemma perform_Returned:
  "perform other r w = (Returned, w') \<longleftrightarrow>
   (\<exists>d. engine other r (db w) = Inr d \<and> w' = w\<lparr>sent := sent w @ [r], db := d\<rparr>)"
  by (auto simp: perform_def Let_def split: sum.splits)

lemma perform_Raised:
  "perform other r w = (Raised e, w') \<longleftrightarrow>
   (engine other r (db w) = Inl e \<and> w' = w\<lparr>sent := sent w @ [r]\<rparr>)"
  by (auto simp: perform_def Let_def split: sum.splits)

lemma perform_globals: "globals (snd (perform other r w)) = globals w"
  by (simp add: perform_def Let_def split: sum.splits)

lemma execute_statements_append:
  "execute_statements other (xs @ ys) w =
     (case execute_statements other xs w of
        (Raised e, w') \<Rightarrow> (Raised e, w')
      | (Returned, w') \<Rightarrow> execute_statements other ys w')"
  by (induction xs arbitrary: w) (auto split: prod.splits outcome.splits)

lemma execute_statements_sent:
  "\<exists>k. sent (snd (execute_statements other ss w)) =
        sent w @ map Execute (take k (filter truthy ss))"
proof (induction ss arbitrary: w)
  case Nil
  then show ?case by simp
next
  case (Cons s ss)
  show ?case
  proof (cases "truthy s")
    case False
    with Cons show ?thesis by simp
  next
    case True
    obtain o1 w1 where p: "conn_execute other s w = (o1, w1)"
      by (cases "conn_execute other s w")
    then have s1: "sent w1 = sent w @ [Execute s]"
      using perform_sent [of other "Execute s" w] by (simp add: conn_execute_def)
    show ?thesis
    proof (cases o1)
      case (Raised e)
      with p True s1 have "sent (snd (execute_statements other (s # ss) w)) =
          sent w @ map Execute (take 1 (filter truthy (s # ss)))"
        by simp
      then show ?thesis by blast
    next
      case Returned
      from Cons [of w1] obtain k where
        "sent (snd (execute_statements other ss w1)) =
           sent w1 @ map Execute (take k (filter truthy ss))"
        by blast
      with p True s1 Returned have "sent (snd (execute_statements other (s # ss) w)) =
          sent w @ map Execute (take (Suc k) (filter truthy (s # ss)))"
        by simp
      then show ?thesis by blast
    qed
  qed
qed


lemma execute_statements_globals:
  "globals (snd (execute_statements other ss w)) = globals w"
proof (induction ss arbitrary: w)
  case Nil
  then show ?case by simp
next
  case (Cons s ss)
  have "globals (snd (conn_execute other s w)) = globals w"
    by (simp add: conn_execute_def perform_globals)
  with Cons show ?case
    by (auto split: prod.splits outcome.splits)
qed

lemma then_execute_Inl: "foldl (then_execute other) (Inl e) ss = Inl e"
  by (induction ss) (simp_all add: then_execute_def)

lemma execute_statements_fold:
  "\<forall>s \<in> set ss. truthy s \<Longrightarrow> foldl (then_execute other) (Inr (db w)) ss = Inr d \<Longrightarrow>
   execute_statements other ss w =
     (Returned, w\<lparr>sent := sent w @ map Execute ss, db := d\<rparr>)"
proof (induction ss arbitrary: w)
  case Nil
  then show ?case by simp
next
  case (Cons s ss)
  show ?case
  proof (cases "engine other (Execute s) (db w)")
    case (Inl e)
    then have "then_execute other (Inr (db w)) s = Inl e"
      by (simp add: then_execute_def del: engine.simps)
    with Cons.prems(2) have "foldl (then_execute other) (Inl e) ss = Inr d" by simp
    then show ?thesis by (simp add: then_execute_Inl)
  next
    case (Inr d')
    let ?w1 = "w\<lparr>sent := sent w @ [Execute s], db := d'\<rparr>"
    have p: "conn_execute other s w = (Returned, ?w1)"
      using Inr by (simp add: conn_execute_def perform_def del: engine.simps)
    have "then_execute other (Inr (db w)) s = Inr d'"
      using Inr by (simp add: then_execute_def del: engine.simps)
    with Cons.prems(2) have "foldl (then_execute other) (Inr (db ?w1)) ss = Inr d"
      by simp
    moreover have "\<forall>s \<in> set ss. truthy s" using Cons.prems(1) by simp
    ultimately have "execute_statements other ss ?w1 =
        (Returned, ?w1\<lparr>sent := sent ?w1 @ map Execute ss, db := d\<rparr>)"
      by (rule Cons.IH [rotated])
    with p Cons.prems(1) show ?thesis by simp
  qed
qed

lemma upgrade_sent:
  assumes "files w (schema_path file) = Inr schema_sql"
  shows "\<exists>k. sent (snd (upgrade other file w)) =
              sent w @ map Execute (take k (statements schema_sql))"
  using assms execute_statements_sent [of other "statements schema_sql" w]
  by (simp add: upgrade_def filter_truthy_statements)


lemma statements_example:
  "statements (str ''CREATE TABLE t (id int); CREATE TABLE u (id int);'') =
     [str ''CREATE TABLE t (id int)'', str ''CREATE TABLE u (id int)'']"
  by (simp add: statements_def str_def semicolon_def strip_def isspace_def truthy_def)

lemma parse_create_t: "parse_drop_if_exists (str ''CREATE TABLE t (id int)'') = None"
  by (simp add: parse_drop_if_exists_def between_def str_def)

lemma parse_create_u: "parse_drop_if_exists (str ''CREATE TABLE u (id int)'') = None"
  by (simp add: parse_drop_if_exists_def between_def str_def)

lemma dirname_component:
  assumes "slash \<notin> set name" and "base = [] \<or> last base \<noteq> slash"
  shows "dirname (base @ slash # name) = (if base = [] then [slash] else base)"
proof -
  have "dropWhile (\<lambda>c. c \<noteq> slash) (rev name @ slash # rev base) = slash # rev base"
    using assms(1) by (subst dropWhile_append2) auto
  then have head: "rev (dropWhile (\<lambda>c. c \<noteq> slash) (rev (base @ slash # name))) = base @ [slash]"
    by simp
  show ?thesis
  proof (cases "base = []")
    case True
    with head show ?thesis by (simp add: dirname_def)
  next
    case False
    with assms(2) have l: "last base \<noteq> slash" by simp
    from False l have "last base \<in> set (base @ [slash])" by simp
    moreover have "\<forall>c \<in> set (replicate (length (base @ [slash])) slash). c = slash" by simp
    ultimately have ne: "base @ [slash] \<noteq> replicate (length (base @ [slash])) slash"
      using l by metis
    have "dropWhile (\<lambda>c. c = slash) (rev base) = rev base"
      using False l by (cases "rev base") (auto simp: last_rev [symmetric] hd_rev)
    with head ne False show ?thesis
      by (simp add: dirname_def Let_def)
  qed
qed

lemma run_all_globals:
  "\<forall>call \<in> set calls. \<forall>w. globals (snd (call w)) = globals w \<Longrightarrow>
   globals (snd (run_all calls w)) = globals w"
proof (induction calls arbitrary: w)
  case Nil
  then show ?case by simp
next
  case (Cons call calls)
  then have "globals (snd (call w)) = globals w" by simp
  moreover have "globals (snd (run_all calls w')) = globals w'" for w'
    using Cons by simp
  ultimately show ?case
    by (auto split: prod.splits outcome.splits)
qed

lemma upgrade_globals: "globals (snd (upgrade other file w)) = globals w"
  by (simp add: upgrade_def execute_statements_globals split: sum.splits)

lemma downgrade_globals: "globals (snd (downgrade other w)) = globals w"
  unfolding downgrade_def
  by (rule run_all_globals) (simp add: op_execute_def op_drop_table_def perform_globals)

lemma downgrade_teardown: "downgrade other = run_all (map (perform other) teardown)"
  by (simp add: downgrade_def teardown_def guarded_drops_def dropped_views_def
      dropped_tables_def op_execute_def op_drop_table_def str_def)

lemma teardown_objects: "map dropped_object teardown = map Some named_objects"
  by (simp add: teardown_def guarded_drops_def dropped_views_def dropped_tables_def
      named_objects_def parse_drop_if_exists_def between_def unquote_def dquote_def str_def)

lemma run_all_append:
  "run_all (xs @ ys) w =
     (case run_all xs w of
        (Raised e, w') \<Rightarrow> (Raised e, w')
      | (Returned, w') \<Rightarrow> run_all ys w')"
  by (induction xs arbitrary: w) (auto split: prod.splits outcome.splits)

lemma run_requests_sent:
  "\<exists>k \<le> length rs. sent (snd (run_all (map (perform other) rs) w)) = sent w @ take k rs"
proof (induction rs arbitrary: w)
  case Nil
  then show ?case by simp
next
  case (Cons r rs)
  obtain o1 w1 where p: "perform other r w = (o1, w1)"
    by (cases "perform other r w")
  then have s1: "sent w1 = sent w @ [r]"
    using perform_sent [of other r w] by simp
  show ?case
  proof (cases o1)
    case (Raised e)
    with p s1 have "sent (snd (run_all (map (perform other) (r # rs)) w)) =
        sent w @ take 1 (r # rs)"
      by simp
    moreover have "1 \<le> length (r # rs)" by simp
    ultimately show ?thesis by blast
  next
    case Returned
    from Cons [of w1] obtain k where "k \<le> length rs"
      "sent (snd (run_all (map (perform other) rs) w1)) = sent w1 @ take k rs"
      by blast
    with p s1 Returned have "sent (snd (run_all (map (perform other) (r # rs)) w)) =
        sent w @ take (Suc k) (r # rs)" "Suc k \<le> length (r # rs)"
      by simp_all
    then show ?thesis by blast
  qed
qed

lemma run_requests_Returned_sent:
  "run_all (map (perform other) rs) w = (Returned, w') \<Longrightarrow> sent w' = sent w @ rs"
proof (induction rs arbitrary: w)
  case Nil
  then show ?case by simp
next
  case (Cons r rs)
  from Cons.prems obtain w1 where p: "perform other r w = (Returned, w1)"
    and r: "run_all (map (perform other) rs) w1 = (Returned, w')"
    by (auto split: prod.splits outcome.splits)
  from p have "sent w1 = sent w @ [r]"
    using perform_sent [of other r w] by simp
  with Cons.IH [OF r] show ?case by simp
qed

lemma engine_drop:
  assumes "engine other r d = Inr d'" and "dropped_object r = Some x"
  shows "objects d' \<subseteq> objects d" and "x \<notin> objects d'"
proof -
  have "objects d' \<subseteq> objects d \<and> x \<notin> objects d'"
  proof (cases r)
    case (Execute s)
    with assms have "d' = drop_if_exists_cascade x d" by simp
    then show ?thesis
      by (auto simp: drop_if_exists_cascade_def remove_objects_def)
  next
    case (DropTable name)
    with assms have "x = Table name" and "drop_table name d = Inr d'" by simp_all
    then show ?thesis
      by (auto simp: drop_table_def remove_objects_def split: if_splits)
  qed
  then show "objects d' \<subseteq> objects d" and "x \<notin> objects d'" by simp_all
qed

lemma run_requests_drop:
  assumes "run_all (map (perform other) rs) w = (Returned, w')"
    and "map dropped_object rs = map Some xs"
  shows "objects (db w') \<subseteq> objects (db w) \<and> (\<forall>x \<in> set xs. x \<notin> objects (db w'))"
  using assms
proof (induction rs arbitrary: w xs)
  case Nil
  then show ?case by simp
next
  case (Cons r rs)
  from Cons.prems(2) obtain x xs' where xs: "xs = x # xs'"
    and x: "dropped_object r = Some x" and rest: "map dropped_object rs = map Some xs'"
    by (cases xs) auto
  from Cons.prems(1) obtain w1 where p: "perform other r w = (Returned, w1)"
    and r: "run_all (map (perform other) rs) w1 = (Returned, w')"
    by (auto split: prod.splits outcome.splits)
  from p obtain d where e: "engine other r (db w) = Inr d" and w1: "db w1 = d"
    by (auto simp: perform_Returned)
  from engine_drop [OF e x] w1 have s1: "objects (db w1) \<subseteq> objects (db w)"
    and x1: "x \<notin> objects (db w1)" by simp_all
  from Cons.IH [OF r rest] have s2: "objects (db w') \<subseteq> objects (db w1)"
    and x2: "\<forall>x \<in> set xs'. x \<notin> objects (db w')" by simp_all
  from s1 s2 x1 x2 xs show ?case by auto
qed

lemma downgrade_Returned_absent:
  assumes "downgrade other w = (Returned, w')"
  shows "\<forall>x \<in> set named_objects. x \<notin> objects (db w')"
  using run_requests_drop [of other teardown w w' named_objects] assms
  by (simp add: downgrade_teardown teardown_objects)

lemma guarded_drops_objects:
  "map parse_drop_if_exists guarded_drops =
     map Some (map View dropped_views @
       [Function (str ''update_updated_at_column()''), Extension (str ''uuid-ossp'')])"
  by (simp add: guarded_drops_def dropped_views_def
      parse_drop_if_exists_def between_def unquote_def dquote_def str_def)

lemma guarded_drop_named:
  assumes "sql \<in> set guarded_drops"
  shows "\<exists>x \<in> set named_objects. parse_drop_if_exists sql = Some x"
proof -
  from assms have "parse_drop_if_exists sql \<in> set (map parse_drop_if_exists guarded_drops)"
    by simp
  then show ?thesis
    unfolding guarded_drops_objects by (auto simp: named_objects_def)
qed

lemma perform_absent_guarded:
  assumes "parse_drop_if_exists sql = Some x" and "x \<notin> objects (db w)"
  shows "perform other (Execute sql) w = (Returned, w\<lparr>sent := sent w @ [Execute sql]\<rparr>)"
  using assms by (simp add: perform_def drop_if_exists_cascade_def)

lemma run_absent_guarded:
  "\<forall>sql \<in> set sqls. \<exists>x. parse_drop_if_exists sql = Some x \<and> x \<notin> objects (db w) \<Longrightarrow>
   run_all (map (perform other) (map Execute sqls)) w =
     (Returned, w\<lparr>sent := sent w @ map Execute sqls\<rparr>)"
proof (induction sqls arbitrary: w)
  case Nil
  then show ?case by simp
next
  case (Cons sql sqls)
  then obtain x where x: "parse_drop_if_exists sql = Some x" "x \<notin> objects (db w)"
    by auto
  let ?w1 = "w\<lparr>sent := sent w @ [Execute sql]\<rparr>"
  have p: "perform other (Execute sql) w = (Returned, ?w1)"
    using x by (rule perform_absent_guarded)
  have "\<forall>sql \<in> set sqls. \<exists>x. parse_drop_if_exists sql = Some x \<and> x \<notin> objects (db ?w1)"
    using Cons.prems by simp
  from Cons.IH [OF this] p show ?case by simp
qed

lemma perform_drop_table_fails:
  assumes "Table name \<notin> objects (db w) \<or> (\<exists>y \<in> objects (db w). (y, Table name) \<in> depends (db w))"
  shows "perform other (DropTable name) w =
     (Raised (if Table name \<notin> objects (db w) then UndefinedTable name
              else DependentObjectsStillExist name),
      w\<lparr>sent := sent w @ [DropTable name]\<rparr>)"
  using assms by (auto simp: perform_def drop_table_def)

lemma perform_guarded_effect:
  assumes "parse_drop_if_exists sql = Some x"
  shows "\<exists>w'. perform other (Execute sql) w = (Returned, w') \<and>
           objects (db w') \<subseteq> objects (db w) \<and> depends (db w') \<subseteq> depends (db w) \<and>
           x \<notin> objects (db w') \<and>
           (\<forall>z \<in> objects (db w). z \<noteq> x \<and> (z, x) \<notin> (depends (db w))\<^sup>+ \<longrightarrow> z \<in> objects (db w'))"
  using assms
  by (auto simp: perform_def drop_if_exists_cascade_def remove_objects_def dependents_def)

lemma run_guarded_effect:
  "map parse_drop_if_exists sqls = map Some xs \<Longrightarrow>
   \<exists>w'. run_all (map (perform other) (map Execute sqls)) w = (Returned, w') \<and>
         objects (db w') \<subseteq> objects (db w) \<and> depends (db w') \<subseteq> depends (db w) \<and>
         (\<forall>x \<in> set xs. x \<notin> objects (db w')) \<and>
         (\<forall>z \<in> objects (db w).
            z \<notin> set xs \<and> (\<forall>x \<in> set xs. (z, x) \<notin> (depends (db w))\<^sup>+) \<longrightarrow> z \<in> objects (db w'))"
proof (induction sqls arbitrary: w xs)
  case Nil
  then show ?case by simp
next
  case (Cons sql sqls)
  from Cons.prems obtain x xs' where xs: "xs = x # xs'"
    and x: "parse_drop_if_exists sql = Some x"
    and rest: "map parse_drop_if_exists sqls = map Some xs'"
    by (cases xs) auto
  from perform_guarded_effect [OF x, of other w] obtain w1 where
    p: "perform other (Execute sql) w = (Returned, w1)"
    and o1: "objects (db w1) \<subseteq> objects (db w)" and d1: "depends (db w1) \<subseteq> depends (db w)"
    and x1: "x \<notin> objects (db w1)"
    and k1: "\<forall>z \<in> objects (db w). z \<noteq> x \<and> (z, x) \<notin> (depends (db w))\<^sup>+ \<longrightarrow> z \<in> objects (db w1)"
    by blast
  from Cons.IH [OF rest, of w1] obtain w' where
    r: "run_all (map (perform other) (map Execute sqls)) w1 = (Returned, w')"
    and o2: "objects (db w') \<subseteq> objects (db w1)" and d2: "depends (db w') \<subseteq> depends (db w1)"
    and x2: "\<forall>x \<in> set xs'. x \<notin> objects (db w')"
    and k2: "\<forall>z \<in> objects (db w1).
            z \<notin> set xs' \<and> (\<forall>x \<in> set xs'. (z, x) \<notin> (depends (db w1))\<^sup>+) \<longrightarrow> z \<in> objects (db w')"
    by blast
  have mono: "(depends (db w1))\<^sup>+ \<subseteq> (depends (db w))\<^sup>+"
    using d1 by (rule trancl_mono_subset)
  have "run_all (map (perform other) (map Execute (sql # sqls))) w = (Returned, w')"
    using p r by simp
  moreover have "objects (db w') \<subseteq> objects (db w)" using o1 o2 by blast
  moreover have "depends (db w') \<subseteq> depends (db w)" using d1 d2 by blast
  moreover have "\<forall>x \<in> set xs. x \<notin> objects (db w')" using xs x1 x2 o2 by auto
  moreover have "\<forall>z \<in> objects (db w).
            z \<notin> set xs \<and> (\<forall>x \<in> set xs. (z, x) \<notin> (depends (db w))\<^sup>+) \<longrightarrow> z \<in> objects (db w')"
    using xs k1 k2 mono by auto
  ultimately show ?case by blast
qed

lemma run_table_drops:
  assumes "distinct ts"
    and "\<forall>t \<in> set ts. Table t \<in> objects (db w)"
    and "\<forall>pre t post y. ts = pre @ t # post \<and> y \<in> objects (db w) \<and>
           (y, Table t) \<in> depends (db w) \<longrightarrow> y \<in> Table ` set pre"
  shows "\<exists>w'. run_all (map (perform other) (map DropTable ts)) w = (Returned, w')"
  using assms
proof (induction ts arbitrary: w)
  case Nil
  then show ?case by simp
next
  case (Cons t ts)
  have ex: "Table t \<in> objects (db w)" using Cons.prems(2) by simp
  have nodep: "\<not> (\<exists>y \<in> objects (db w). (y, Table t) \<in> depends (db w))"
  proof
    assume "\<exists>y \<in> objects (db w). (y, Table t) \<in> depends (db w)"
    then obtain y where "y \<in> objects (db w)" "(y, Table t) \<in> depends (db w)" by blast
    moreover have "t # ts = [] @ t # ts" by simp
    ultimately have "y \<in> Table ` set []" using Cons.prems(3) by blast
    then show False by simp
  qed
  let ?w1 = "w\<lparr>sent := sent w @ [DropTable t], db := remove_objects {Table t} (db w)\<rparr>"
  have p: "perform other (DropTable t) w = (Returned, ?w1)"
    using ex nodep by (simp add: perform_def drop_table_def)
  have o: "objects (db ?w1) = objects (db w) - {Table t}"
    and d: "depends (db ?w1) \<subseteq> depends (db w)"
    by (auto simp: remove_objects_def)
  have 1: "distinct ts" using Cons.prems(1) by simp
  have 2: "\<forall>t' \<in> set ts. Table t' \<in> objects (db ?w1)"
    using Cons.prems(1,2) o by auto
  have 3: "\<forall>pre t' post y. ts = pre @ t' # post \<and> y \<in> objects (db ?w1) \<and>
           (y, Table t') \<in> depends (db ?w1) \<longrightarrow> y \<in> Table ` set pre"
  proof (intro allI impI)
    fix pre t' post y
    assume a: "ts = pre @ t' # post \<and> y \<in> objects (db ?w1) \<and> (y, Table t') \<in> depends (db ?w1)"
    then have "t # ts = (t # pre) @ t' # post" by simp
    moreover from a o d have "y \<in> objects (db w)" "(y, Table t') \<in> depends (db w)" "y \<noteq> Table t"
      by auto
    ultimately have "y \<in> Table ` set (t # pre)" using Cons.prems(3) by blast
    with \<open>y \<noteq> Table t\<close> show "y \<in> Table ` set pre" by auto
  qed
  from Cons.IH [OF 1 2 3] p show ?case by auto
qed

lemma distinct_dropped_tables: "distinct dropped_tables"
  by (simp add: dropped_tables_def str_def)

lemma downgrade_children_first:
  assumes tables: "\<forall>t \<in> set dropped_tables. Table t \<in> objects (db w)"
    and views: "\<forall>v \<in> set dropped_views. \<forall>t \<in> set dropped_tables.
                  (Table t, View v) \<notin> (depends (db w))\<^sup>+"
    and order: "\<forall>pre t post y. dropped_tables = pre @ t # post \<and> y \<in> objects (db w) \<and>
           (y, Table t) \<in> depends (db w) \<longrightarrow> y \<in> Table ` set pre \<union> View ` set dropped_views"
  shows "fst (downgrade other w) = Returned"
proof -
  have pv: "map parse_drop_if_exists (take 3 guarded_drops) = map Some (map View dropped_views)"
    using guarded_drops_objects [THEN arg_cong, of "take 3"]
    by (simp add: take_map dropped_views_def)
  have pr: "map parse_drop_if_exists (drop 3 guarded_drops) =
      map Some [Function (str ''update_updated_at_column()''), Extension (str ''uuid-ossp'')]"
    using guarded_drops_objects [THEN arg_cong, of "drop 3"]
    by (simp add: drop_map dropped_views_def)
  from run_guarded_effect [OF pv, of other w] obtain w1 where
    r1: "run_all (map (perform other) (map Execute (take 3 guarded_drops))) w = (Returned, w1)"
    and o1: "objects (db w1) \<subseteq> objects (db w)" and d1: "depends (db w1) \<subseteq> depends (db w)"
    and x1: "\<forall>x \<in> set (map View dropped_views). x \<notin> objects (db w1)"
    and k1: "\<forall>z \<in> objects (db w).
            z \<notin> set (map View dropped_views) \<and>
            (\<forall>x \<in> set (map View dropped_views). (z, x) \<notin> (depends (db w))\<^sup>+) \<longrightarrow>
            z \<in> objects (db w1)"
    by blast
  have dist: "distinct dropped_tables" by (rule distinct_dropped_tables)
  have t1: "\<forall>t \<in> set dropped_tables. Table t \<in> objects (db w1)"
  proof
    fix t assume t: "t \<in> set dropped_tables"
    then have "Table t \<in> objects (db w)" using tables by blast
    moreover have "Table t \<notin> set (map View dropped_views)" by auto
    moreover have "\<forall>x \<in> set (map View dropped_views). (Table t, x) \<notin> (depends (db w))\<^sup>+"
      using views t by auto
    ultimately show "Table t \<in> objects (db w1)" using k1 by blast
  qed
  have c1: "\<forall>pre t post y. dropped_tables = pre @ t # post \<and> y \<in> objects (db w1) \<and>
           (y, Table t) \<in> depends (db w1) \<longrightarrow> y \<in> Table ` set pre"
  proof (intro allI impI)
    fix pre t post y
    assume a: "dropped_tables = pre @ t # post \<and> y \<in> objects (db w1) \<and>
           (y, Table t) \<in> depends (db w1)"
    with o1 d1 have "dropped_tables = pre @ t # post \<and> y \<in> objects (db w) \<and>
           (y, Table t) \<in> depends (db w)" by blast
    with order have "y \<in> Table ` set pre \<union> View ` set dropped_views" by blast
    moreover from a x1 have "y \<notin> View ` set dropped_views" by auto
    ultimately show "y \<in> Table ` set pre" by blast
  qed
  from run_table_drops [OF dist t1 c1, of other] obtain w2 where
    r2: "run_all (map (perform other) (map DropTable dropped_tables)) w1 = (Returned, w2)"
    by blast
  from run_guarded_effect [OF pr, of other w2] obtain w3 where
    r3: "run_all (map (perform other) (map Execute (drop 3 guarded_drops))) w2 = (Returned, w3)"
    by blast
  have "downgrade other w = (Returned, w3)"
    using r1 r2 r3 by (simp add: downgrade_teardown teardown_def run_all_append)
  then show ?thesis by simp
qed

section \<open>The sample run, evaluated\<close>

lemma sample_schema_path: "schema_path sample_file = str ''/repo/db/schema.sql''"
  by (simp add: sample_file_def schema_path_def dirname_def join_def str_def slash_def)

lemma sample_files: "files (sample_world schema_sql) (schema_path sample_file) = Inr schema_sql"
  by (simp add: sample_schema_path sample_world_def)

lemma sample_statements: "statements sample_schema = map (\<lambda>(l, s, r). s) sample_items"
proof -
  have "\<forall>(l, s, r) \<in> set sample_items.
             (\<forall>c \<in> set l. isspace c) \<and> (\<forall>c \<in> set r. isspace c) \<and>
             s \<noteq> [] \<and> semicolon \<notin> set s \<and> \<not> isspace (hd s) \<and> \<not> isspace (last s)"
    by (simp add: sample_items_def dropped_tables_def str_def isspace_def semicolon_def)
  moreover have "semicolon \<notin> set [10]" by (simp add: semicolon_def)
  moreover have "strip [10] = []" by (simp add: strip_def isspace_def)
  ultimately show ?thesis
    using statements_terminated [of sample_items "[10]"] by (simp add: sample_schema_def)
qed

lemma sample_upgrade:
  "upgrade create_table sample_file (sample_world sample_schema) = (Returned, sample_upgraded)"
proof -
  have "execute_statements create_table (map (\<lambda>(l, s, r). s) sample_items)
      (sample_world sample_schema) = (Returned, sample_upgraded)"
    by (simp add: sample_items_def dropped_tables_def sample_upgraded_def sample_world_def
        truthy_def conn_execute_def perform_def parse_drop_if_exists_def between_def
        create_table_def str_def insert_commute)
  then show ?thesis
    by (simp add: upgrade_def sample_statements sample_files)
qed

lemma sample_downgrade: "downgrade create_table sample_upgraded = (Returned, sample_downgraded)"
  by (simp add: downgrade_teardown teardown_def guarded_drops_def dropped_views_def
      dropped_tables_def sample_downgraded_def sample_upgraded_def sample_world_def
      perform_def drop_table_def drop_if_exists_cascade_def remove_objects_def
      parse_drop_if_exists_def between_def unquote_def dquote_def str_def)


lemma clients_only_upgrade:
  "upgrade create_table sample_file (sample_world clients_only) =
     (Returned,
      (sample_world clients_only)
        \<lparr>sent := [Execute (str ''CREATE TABLE clients (id int)'')],
         db := \<lparr>objects = {Table (str ''clients'')}, depends = {}\<rparr>\<rparr>)"
proof -
  have "statements clients_only = [str ''CREATE TABLE clients (id int)'']"
    by (simp add: clients_only_def statements_def str_def semicolon_def strip_def isspace_def
        truthy_def)
  moreover have "execute_statements create_table [str ''CREATE TABLE clients (id int)'']
          (sample_world clients_only) =
     (Returned,
      (sample_world clients_only)
        \<lparr>sent := [Execute (str ''CREATE TABLE clients (id int)'')],
         db := \<lparr>objects = {Table (str ''clients'')}, depends = {}\<rparr>\<rparr>)"
    by (simp add: sample_world_def truthy_def conn_execute_def perform_def
        parse_drop_if_exists_def between_def create_table_def str_def)
  ultimately show ?thesis
    by (simp add: upgrade_def sample_files)
qed

lemma clients_only_downgrade:
  "downgrade create_table
     ((sample_world clients_only)
        \<lparr>sent := [Execute (str ''CREATE TABLE clients (id int)'')],
         db := \<lparr>objects = {Table (str ''clients'')}, depends = {}\<rparr>\<rparr>) =
     (Raised (UndefinedTable (str ''notifications'')),
      (sample_world clients_only)
        \<lparr>sent := Execute (str ''CREATE TABLE clients (id int)'') # take 4 teardown,
         db := \<lparr>objects = {Table (str ''clients'')}, depends = {}\<rparr>\<rparr>)"
  by (simp add: downgrade_teardown teardown_def guarded_drops_def dropped_views_def
      dropped_tables_def sample_world_def
      perform_def drop_table_def drop_if_exists_cascade_def remove_objects_def
      parse_drop_if_exists_def between_def unquote_def dquote_def str_def)

section \<open>The statement derivation\<close>

text \<open>
  C1. A schema document is a sequence of fragments, each followed by \<open>;\<close>, and a last
  fragment that no \<open>;\<close> follows. Let every fragment be a statement with whitespace
  allowed around it, where a statement contains no \<open>;\<close> and neither starts nor ends
  with whitespace; an empty statement stands for a fragment of whitespace only. Then the
  derivation of \<open>upgrade\<close> (split on \<open>;\<close>, strip each fragment, discard the empty
  ones) yields exactly the non-empty statements, in their order. In particular, when the
  statements before the last \<open>;\<close> are non-empty, the result is exactly these statements
  if nothing but whitespace follows the last \<open>;\<close> (the empty trailing fragment is
  discarded), and these statements and the last one if the last statement has no \<open>;\<close>
  after it. No derived entry is empty, and what \<open>upgrade\<close> sends to the connection is
  an initial part of the non-empty statements, so an empty fragment is never sent. By
  \<open>document_padded\<close> every text is a document of this form.
\<close>

theorem statements_of_document:
  assumes "\<forall>(l, s, r) \<in> set (items @ [(l', s', r')]).
             (\<forall>c \<in> set l. isspace c) \<and> (\<forall>c \<in> set r. isspace c) \<and> semicolon \<notin> set s \<and>
             (s = [] \<or> \<not> isspace (hd s) \<and> \<not> isspace (last s))"
    and "document =
           concat (map (\<lambda>(l, s, r). l @ s @ r @ [semicolon]) items) @ l' @ s' @ r'"
  shows "statements document = filter (\<lambda>s. s \<noteq> []) (map (\<lambda>(l, s, r). s) items @ [s']) \<and>
         ((\<forall>(l, s, r) \<in> set items. s \<noteq> []) \<and> s' = [] \<longrightarrow>
            statements document = map (\<lambda>(l, s, r). s) items) \<and>
         ((\<forall>(l, s, r) \<in> set items. s \<noteq> []) \<and> s' \<noteq> [] \<longrightarrow>
            statements document = map (\<lambda>(l, s, r). s) items @ [s']) \<and>
         [] \<notin> set (statements document) \<and>
         (files w (schema_path file) = Inr document \<longrightarrow>
          (\<exists>k. sent (snd (upgrade other file w)) =
                sent w @ map Execute
                  (take k (filter (\<lambda>s. s \<noteq> []) (map (\<lambda>(l, s, r). s) items @ [s'])))))"
proof -
  have eq: "statements document =
      filter (\<lambda>s. s \<noteq> []) (map (\<lambda>(l, s, r). s) items @ [s'])"
    using statements_padded [OF assms(1)] assms(2) by simp
  have all: "filter (\<lambda>s. s \<noteq> []) (map (\<lambda>(l, s, r). s) items) = map (\<lambda>(l, s, r). s) items"
    if "\<forall>(l, s, r) \<in> set items. s \<noteq> []"
    using that by (intro filter_True) auto
  have ne: "[] \<notin> set (statements document)"
    using statements_properties(1) [of "[]" document] by (auto simp: truthy_def)
  have "\<exists>k. sent (snd (upgrade other file w)) =
              sent w @ map Execute
                (take k (filter (\<lambda>s. s \<noteq> []) (map (\<lambda>(l, s, r). s) items @ [s'])))"
    if "files w (schema_path file) = Inr document"
    using upgrade_sent [OF that, of other] eq by simp
  with eq all ne show ?thesis by simp
qed

text \<open>
  The theorem at the document \<open>CREATE TABLE t (id int); CREATE TABLE u (id int);\<close>, in the
  sample world, and at \<open>SELECT 1;SELECT 2\<close>, whose last statement has no \<open>;\<close> after it.
\<close>

theorem statements_of_document_witness:
  "statements two_tables = [str ''CREATE TABLE t (id int)'', str ''CREATE TABLE u (id int)''] \<and>
   [] \<notin> set (statements two_tables) \<and>
   files (sample_world two_tables) (schema_path sample_file) = Inr two_tables \<and>
   (\<exists>k. sent (snd (upgrade create_table sample_file (sample_world two_tables))) =
         map Execute
           (take k [str ''CREATE TABLE t (id int)'', str ''CREATE TABLE u (id int)''])) \<and>
   statements (str ''SELECT 1;SELECT 2'') = [str ''SELECT 1'', str ''SELECT 2'']"
proof -
  let ?items = "[([], str ''CREATE TABLE t (id int)'', []),
                 ([32], str ''CREATE TABLE u (id int)'', [])] :: (pystr \<times> pystr \<times> pystr) list"
  have h1: "\<forall>(l, s, r) \<in> set (?items @ [([], [], [])]).
             (\<forall>c \<in> set l. isspace c) \<and> (\<forall>c \<in> set r. isspace c) \<and> semicolon \<notin> set s \<and>
             (s = [] \<or> \<not> isspace (hd s) \<and> \<not> isspace (last s))"
    by (simp add: str_def isspace_def semicolon_def)
  have h2: "two_tables =
      concat (map (\<lambda>(l, s, r). l @ s @ r @ [semicolon]) ?items) @ [] @ [] @ []"
    by (simp add: two_tables_def str_def semicolon_def)
  have f: "files (sample_world two_tables) (schema_path sample_file) = Inr two_tables"
    by (rule sample_files)
  have s: "sent (sample_world two_tables) = []" by (simp add: sample_world_def)
  have a: "statements two_tables =
        [str ''CREATE TABLE t (id int)'', str ''CREATE TABLE u (id int)''] \<and>
      [] \<notin> set (statements two_tables) \<and>
      (\<exists>k. sent (snd (upgrade create_table sample_file (sample_world two_tables))) =
         map Execute
           (take k [str ''CREATE TABLE t (id int)'', str ''CREATE TABLE u (id int)'']))"
    using statements_of_document [OF h1 h2, of "sample_world two_tables" sample_file
        create_table] f s
    by (simp add: str_def)
  let ?one = "[([], str ''SELECT 1'', [])] :: (pystr \<times> pystr \<times> pystr) list"
  have k1: "\<forall>(l, s, r) \<in> set (?one @ [([], str ''SELECT 2'', [])]).
             (\<forall>c \<in> set l. isspace c) \<and> (\<forall>c \<in> set r. isspace c) \<and> semicolon \<notin> set s \<and>
             (s = [] \<or> \<not> isspace (hd s) \<and> \<not> isspace (last s))"
    by (simp add: str_def isspace_def semicolon_def)
  have k2: "str ''SELECT 1;SELECT 2'' =
      concat (map (\<lambda>(l, s, r). l @ s @ r @ [semicolon]) ?one) @ [] @ str ''SELECT 2'' @ []"
    by (simp add: str_def semicolon_def)
  have b: "statements (str ''SELECT 1;SELECT 2'') = [str ''SELECT 1'', str ''SELECT 2'']"
    using statements_of_document [OF k1 k2] by (simp add: str_def)
  from a b f show ?thesis by blast
qed



section \<open>upgrade\<close>

text \<open>
  C2. \<open>upgrade\<close> executes the derived statements against the connection in sequence and
  stops at the first one whose execution fails. When the connection accepts the statements
  before it one after the other, leaving the database \<open>d1\<close>, and rejects the next one
  with the error \<open>e\<close>, then \<open>upgrade\<close> raises \<open>e\<close>; the database is \<open>d1\<close>, so every
  effect of the earlier statements is in place and none is undone; the log holds the
  earlier statements and the failing one, so no later statement is sent. When the
  connection accepts all the statements, \<open>upgrade\<close> returns, having sent all of them in
  order, with the database they leave.
\<close>

theorem upgrade_stops_at_first_failure:
  "(files w (schema_path file) = Inr schema_sql \<and>
    statements schema_sql = before @ failing # after \<and>
    foldl (then_execute other) (Inr (db w)) before = Inr d1 \<and>
    engine other (Execute failing) d1 = Inl e \<longrightarrow>
    upgrade other file w =
      (Raised e, w\<lparr>sent := sent w @ map Execute before @ [Execute failing], db := d1\<rparr>)) \<and>
   (files v (schema_path file) = Inr schema_v \<and>
    foldl (then_execute other) (Inr (db v)) (statements schema_v) = Inr d \<longrightarrow>
    upgrade other file v =
      (Returned, v\<lparr>sent := sent v @ map Execute (statements schema_v), db := d\<rparr>))"
proof (intro conjI impI)
  assume a: "files w (schema_path file) = Inr schema_sql \<and>
    statements schema_sql = before @ failing # after \<and>
    foldl (then_execute other) (Inr (db w)) before = Inr d1 \<and>
    engine other (Execute failing) d1 = Inl e"
  then have st: "statements schema_sql = before @ failing # after" by simp
  have tr: "\<forall>s \<in> set (before @ failing # after). truthy s"
    using statements_properties(1) [of _ schema_sql] unfolding st [symmetric] by blast
  let ?w1 = "w\<lparr>sent := sent w @ map Execute before, db := d1\<rparr>"
  have b: "execute_statements other before w = (Returned, ?w1)"
    using tr a by (intro execute_statements_fold) auto
  have "conn_execute other failing ?w1 =
      (Raised e, ?w1\<lparr>sent := sent ?w1 @ [Execute failing]\<rparr>)"
    using a by (simp add: conn_execute_def perform_def del: engine.simps)
  with tr have "execute_statements other (failing # after) ?w1 =
      (Raised e, ?w1\<lparr>sent := sent ?w1 @ [Execute failing]\<rparr>)"
    by simp
  with a b show "upgrade other file w =
      (Raised e, w\<lparr>sent := sent w @ map Execute before @ [Execute failing], db := d1\<rparr>)"
    by (simp add: upgrade_def execute_statements_append)
next
  assume a: "files v (schema_path file) = Inr schema_v \<and>
    foldl (then_execute other) (Inr (db v)) (statements schema_v) = Inr d"
  have "\<forall>s \<in> set (statements schema_v). truthy s"
    using statements_properties(1) by blast
  with a have "execute_statements other (statements schema_v) v =
      (Returned, v\<lparr>sent := sent v @ map Execute (statements schema_v), db := d\<rparr>)"
    by (intro execute_statements_fold) auto
  with a show "upgrade other file v =
      (Returned, v\<lparr>sent := sent v @ map Execute (statements schema_v), db := d\<rparr>)"
    by (simp add: upgrade_def)
qed

text \<open>
  The theorem at a document that creates the table \<open>t\<close> twice and then the table \<open>u\<close>
  (the second statement fails, \<open>t\<close> stays and \<open>u\<close> is never created), and at the document
  that creates \<open>t\<close> and \<open>u\<close> (both are created).
\<close>

theorem upgrade_stops_at_first_failure_witness:
  "upgrade create_table sample_file (sample_world repeated_table) =
     (Raised (DatabaseError (str ''CREATE TABLE t (id int)'')),
      (sample_world repeated_table)
        \<lparr>sent := [Execute (str ''CREATE TABLE t (id int)''),
                  Execute (str ''CREATE TABLE t (id int)'')],
         db := \<lparr>objects = {Table (str ''t'')}, depends = {}\<rparr>\<rparr>) \<and>
   upgrade create_table sample_file (sample_world two_tables) =
     (Returned,
      (sample_world two_tables)
        \<lparr>sent := [Execute (str ''CREATE TABLE t (id int)''),
                  Execute (str ''CREATE TABLE u (id int)'')],
         db := \<lparr>objects = {Table (str ''t''), Table (str ''u'')}, depends = {}\<rparr>\<rparr>)"
proof -
  let ?t = "str ''CREATE TABLE t (id int)''"
  let ?u = "str ''CREATE TABLE u (id int)''"
  let ?d1 = "\<lparr>objects = {Table (str ''t'')}, depends = {}\<rparr>"
  let ?d2 = "\<lparr>objects = {Table (str ''t''), Table (str ''u'')}, depends = {}\<rparr>"
  let ?w = "sample_world repeated_table"
  let ?v = "sample_world two_tables"
  have h1: "files ?w (schema_path sample_file) = Inr repeated_table"
    by (rule sample_files)
  have h2: "statements repeated_table = [?t] @ ?t # [?u]"
    by (simp add: repeated_table_def statements_def str_def semicolon_def strip_def
        isspace_def truthy_def)
  have h3: "foldl (then_execute create_table) (Inr (db ?w)) [?t] = Inr ?d1"
    by (simp add: then_execute_def sample_world_def parse_drop_if_exists_def between_def
        create_table_def str_def)
  have h4: "engine create_table (Execute ?t) ?d1 = Inl (DatabaseError ?t)"
    by (simp add: parse_drop_if_exists_def between_def create_table_def str_def)
  have k1: "files ?v (schema_path sample_file) = Inr two_tables"
    by (rule sample_files)
  have st: "statements two_tables = [?t, ?u]"
    by (simp add: two_tables_def statements_example)
  have k2: "foldl (then_execute create_table) (Inr (db ?v)) (statements two_tables) = Inr ?d2"
    unfolding st
    by (simp add: then_execute_def sample_world_def parse_drop_if_exists_def between_def
        create_table_def str_def insert_commute)
  have s: "sent ?w = []" "sent ?v = []" by (simp_all add: sample_world_def)
  note inst = upgrade_stops_at_first_failure [where ?other = create_table and ?file = sample_file
      and ?w = ?w and ?schema_sql = repeated_table and ?before = "[?t]" and ?failing = ?t
      and ?after = "[?u]" and ?d1.0 = ?d1 and ?e = "DatabaseError ?t"
      and ?v = ?v and ?schema_v = two_tables and ?d = ?d2]
  have "upgrade create_table sample_file ?w =
      (Raised (DatabaseError ?t),
       ?w\<lparr>sent := sent ?w @ map Execute [?t] @ [Execute ?t], db := ?d1\<rparr>)"
    using inst h1 h2 h3 h4 by blast
  moreover have "upgrade create_table sample_file ?v =
      (Returned, ?v\<lparr>sent := sent ?v @ map Execute (statements two_tables), db := ?d2\<rparr>)"
    using inst k1 k2 by blast
  ultimately show ?thesis
    using s st by simp
qed

text \<open>
  C3. When opening the schema file fails, \<open>upgrade\<close> raises the \<open>OSError\<close> and leaves the
  world as it was: no statement has been sent to the connection and the database is
  unchanged.
\<close>

theorem upgrade_missing_schema_file:
  assumes "files w (schema_path file) = Inl errno"
  shows "upgrade other file w = (Raised (OSError errno), w) \<and>
         sent (snd (upgrade other file w)) = sent w \<and>
         db (snd (upgrade other file w)) = db w"
  using assms by (simp add: upgrade_def)

text \<open>The theorem for a migration file in a tree that has no schema document.\<close>

theorem upgrade_missing_schema_file_witness:
  "files (sample_world two_tables) (schema_path (str ''/tmp/a/b/m.py'')) = Inl 2 \<and>
   upgrade create_table (str ''/tmp/a/b/m.py'') (sample_world two_tables) =
     (Raised (OSError 2), sample_world two_tables) \<and>
   sent (snd (upgrade create_table (str ''/tmp/a/b/m.py'') (sample_world two_tables))) = []"
proof -
  have h: "files (sample_world two_tables) (schema_path (str ''/tmp/a/b/m.py'')) = Inl 2"
    by (simp add: sample_world_def schema_path_def dirname_def join_def str_def slash_def)
  have s: "sent (sample_world two_tables) = []" by (simp add: sample_world_def)
  show ?thesis
    using upgrade_missing_schema_file [OF h, of create_table] h s by simp
qed

text \<open>
  C7. For the schema document \<open>CREATE TABLE t (id int); CREATE TABLE u (id int);\<close> the
  derived statements are the two \<open>CREATE TABLE\<close> statements, \<open>t\<close> before \<open>u\<close>, and
  \<open>upgrade\<close> executes exactly these two against the connection in that order, the second
  on the database the first has left (for a connection that accepts both).
\<close>

theorem upgrade_two_statements:
  assumes "files w (schema_path file) =
             Inr (str ''CREATE TABLE t (id int); CREATE TABLE u (id int);'')"
    and "other (str ''CREATE TABLE t (id int)'') (db w) = Inr d1"
    and "other (str ''CREATE TABLE u (id int)'') d1 = Inr d2"
  shows "statements (str ''CREATE TABLE t (id int); CREATE TABLE u (id int);'') =
           [str ''CREATE TABLE t (id int)'', str ''CREATE TABLE u (id int)''] \<and>
         upgrade other file w =
           (Returned,
            w\<lparr>sent := sent w @ [Execute (str ''CREATE TABLE t (id int)''),
                                  Execute (str ''CREATE TABLE u (id int)'')],
              db := d2\<rparr>)"
proof -
  have t: "truthy (str ''CREATE TABLE t (id int)'')" "truthy (str ''CREATE TABLE u (id int)'')"
    by (simp_all add: truthy_def str_def)
  have e1: "engine other (Execute (str ''CREATE TABLE t (id int)'')) (db w) = Inr d1"
    using assms(2) by (simp add: parse_create_t)
  have e2: "engine other (Execute (str ''CREATE TABLE u (id int)'')) d1 = Inr d2"
    using assms(3) by (simp add: parse_create_u)
  have "execute_statements other
          [str ''CREATE TABLE t (id int)'', str ''CREATE TABLE u (id int)''] w =
        (Returned,
            w\<lparr>sent := sent w @ [Execute (str ''CREATE TABLE t (id int)''),
                                  Execute (str ''CREATE TABLE u (id int)'')],
              db := d2\<rparr>)"
    using t by (simp add: conn_execute_def perform_def e1 e2 del: engine.simps)
  with assms(1) show ?thesis
    by (simp add: upgrade_def statements_example)
qed

text \<open>The theorem in the sample world, where both tables are created.\<close>

theorem upgrade_two_statements_witness:
  "upgrade create_table sample_file (sample_world two_tables) =
     (Returned,
      (sample_world two_tables)
        \<lparr>sent := [Execute (str ''CREATE TABLE t (id int)''),
                  Execute (str ''CREATE TABLE u (id int)'')],
         db := \<lparr>objects = {Table (str ''t''), Table (str ''u'')}, depends = {}\<rparr>\<rparr>)"
proof -
  let ?d1 = "\<lparr>objects = {Table (str ''t'')}, depends = {}\<rparr>"
  let ?d2 = "\<lparr>objects = {Table (str ''t''), Table (str ''u'')}, depends = {}\<rparr>"
  have h1: "files (sample_world two_tables) (schema_path sample_file) =
      Inr (str ''CREATE TABLE t (id int); CREATE TABLE u (id int);'')"
    by (simp add: sample_files two_tables_def)
  have h2: "create_table (str ''CREATE TABLE t (id int)'') (db (sample_world two_tables)) =
      Inr ?d1"
    by (simp add: sample_world_def create_table_def str_def)
  have h3: "create_table (str ''CREATE TABLE u (id int)'') ?d1 = Inr ?d2"
    by (simp add: create_table_def str_def insert_commute)
  have s: "sent (sample_world two_tables) = []" by (simp add: sample_world_def)
  show ?thesis
    using upgrade_two_statements [OF h1 h2 h3] s by simp
qed

text \<open>
  C8. The path of the schema document is computed from the path of the migration file
  alone: three \<open>dirname\<close> steps up, then \<open>schema.sql\<close>. For a migration file \<open>name\<close> in
  the directory \<open>root/parent/directory\<close> the first step gives that directory, and the
  schema document is \<open>root/schema.sql\<close>, two directories above the directory that holds
  the migration file.
\<close>

theorem schema_path_three_levels_up:
  assumes "slash \<notin> set parent" and "parent \<noteq> []"
    and "slash \<notin> set directory" and "directory \<noteq> []"
    and "slash \<notin> set name"
    and "root = [] \<or> last root \<noteq> slash"
  shows "schema_path (root @ [slash] @ parent @ [slash] @ directory @ [slash] @ name) =
           root @ [slash] @ str ''schema.sql'' \<and>
         dirname (root @ [slash] @ parent @ [slash] @ directory @ [slash] @ name) =
           root @ [slash] @ parent @ [slash] @ directory \<and>
         schema_path (root @ [slash] @ parent @ [slash] @ directory @ [slash] @ name) =
           join (dirname (dirname (root @ [slash] @ parent @ [slash] @ directory)))
             (str ''schema.sql'')"
proof -
  let ?d2 = "root @ slash # parent"
  let ?d1 = "?d2 @ slash # directory"
  have l2: "last ?d2 \<noteq> slash" using assms(1,2) by (metis last_ConsR last_appendR last_in_set list.distinct(1))
  have l1: "last ?d1 \<noteq> slash" using assms(3,4) by (metis last_ConsR last_appendR last_in_set list.distinct(1))
  have d1: "dirname (?d1 @ slash # name) = ?d1"
    using dirname_component [of name ?d1] assms(5) l1 by simp
  have d2: "dirname ?d1 = ?d2"
    using dirname_component [of directory ?d2] assms(3) l2 by simp
  have d3: "dirname ?d2 = (if root = [] then [slash] else root)"
    using assms(1,6) by (rule dirname_component)
  have h: "hd (str ''schema.sql'') \<noteq> slash" "str ''schema.sql'' \<noteq> []"
    by (simp_all add: str_def slash_def)
  have j: "join (if root = [] then [slash] else root) (str ''schema.sql'') =
           root @ [slash] @ str ''schema.sql''"
    using h assms(6) by (auto simp: join_def)
  have p: "root @ [slash] @ parent @ [slash] @ directory @ [slash] @ name = ?d1 @ slash # name"
    by simp
  have q: "root @ [slash] @ parent @ [slash] @ directory = ?d1" by simp
  show ?thesis
    unfolding p q schema_path_def d1 d2 d3 using j by simp
qed

text \<open>The theorem at the place of the migration file in the repository.\<close>

theorem schema_path_three_levels_up_witness:
  "schema_path (str ''/repo/db/migrations/versions/001_initial_schema.py'') =
     str ''/repo/db/schema.sql'' \<and>
   dirname (str ''/repo/db/migrations/versions/001_initial_schema.py'') =
     str ''/repo/db/migrations/versions''"
proof -
  have h: "slash \<notin> set (str ''migrations'')" "str ''migrations'' \<noteq> []"
    "slash \<notin> set (str ''versions'')" "str ''versions'' \<noteq> []"
    "slash \<notin> set (str ''001_initial_schema.py'')"
    "str ''/repo/db'' = [] \<or> last (str ''/repo/db'') \<noteq> slash"
    by (simp_all add: str_def slash_def)
  show ?thesis
    using schema_path_three_levels_up [OF h] by (simp add: str_def slash_def)
qed

section \<open>Revision metadata\<close>

text \<open>
  C9. The module defines the four revision constants with the values \<open>'001'\<close>, \<open>None\<close>,
  \<open>None\<close> and \<open>None\<close>, and neither \<open>upgrade\<close> nor \<open>downgrade\<close> changes the module's
  globals.
\<close>

theorem revision_metadata:
  "revision module_init = str ''001'' \<and>
   down_revision module_init = None \<and>
   branch_labels module_init = None \<and>
   depends_on module_init = None \<and>
   globals (snd (upgrade other file w)) = globals w \<and>
   globals (snd (downgrade other w)) = globals w"
  by (simp add: module_init_def upgrade_globals downgrade_globals)

section \<open>downgrade\<close>

text \<open>
  C4. \<open>downgrade\<close> performs the fixed teardown, whatever the world: the three guarded view
  drops, the ten table drops in the listed order, the guarded function drop and the
  guarded extension drop; what it sends to the connection is always an initial part of
  this sequence. A table drop is not guarded: when the requests before it have been
  performed and the table is absent or an existing object depends on it, \<open>downgrade\<close>
  raises at that drop, with the effects of the earlier requests in place and nothing
  after it sent. The order of the table drops is children before parents in this sense:
  on a database that holds the ten tables, where no table depends on a named view and
  every object that depends on a table is a table listed before it or a named view,
  \<open>downgrade\<close> returns.
\<close>

theorem downgrade_fixed_teardown:
  "downgrade other w = run_all (map (perform other) teardown) w \<and>
   (\<exists>k \<le> length teardown. sent (snd (downgrade other w)) = sent w @ take k teardown) \<and>
   (teardown = before @ DropTable name # after \<and>
    run_all (map (perform other) before) w = (Returned, w1) \<and>
    (Table name \<notin> objects (db w1) \<or>
     (\<exists>y \<in> objects (db w1). (y, Table name) \<in> depends (db w1))) \<longrightarrow>
    downgrade other w =
      (Raised (if Table name \<notin> objects (db w1) then UndefinedTable name
               else DependentObjectsStillExist name),
       w1\<lparr>sent := sent w1 @ [DropTable name]\<rparr>)) \<and>
   ((\<forall>t \<in> set dropped_tables. Table t \<in> objects (db v)) \<and>
    (\<forall>view \<in> set dropped_views. \<forall>t \<in> set dropped_tables.
       (Table t, View view) \<notin> (depends (db v))\<^sup>+) \<and>
    (\<forall>i < length dropped_tables. \<forall>y \<in> objects (db v).
       (y, Table (dropped_tables ! i)) \<in> depends (db v) \<longrightarrow>
       y \<in> Table ` set (take i dropped_tables) \<union> View ` set dropped_views) \<longrightarrow>
    fst (downgrade other v) = Returned)"
proof (intro conjI impI)
  show "downgrade other w = run_all (map (perform other) teardown) w"
    by (simp add: downgrade_teardown)
  show "\<exists>k \<le> length teardown. sent (snd (downgrade other w)) = sent w @ take k teardown"
    unfolding downgrade_teardown by (rule run_requests_sent)
next
  assume a: "teardown = before @ DropTable name # after \<and>
    run_all (map (perform other) before) w = (Returned, w1) \<and>
    (Table name \<notin> objects (db w1) \<or>
     (\<exists>y \<in> objects (db w1). (y, Table name) \<in> depends (db w1)))"
  then have "perform other (DropTable name) w1 =
     (Raised (if Table name \<notin> objects (db w1) then UndefinedTable name
              else DependentObjectsStillExist name),
      w1\<lparr>sent := sent w1 @ [DropTable name]\<rparr>)"
    by (intro perform_drop_table_fails) simp
  moreover from a have t: "teardown = before @ DropTable name # after" by simp
  have "downgrade other w =
      run_all (map (perform other) before @ map (perform other) (DropTable name # after)) w"
    unfolding downgrade_teardown by (subst t) simp
  ultimately show "downgrade other w =
      (Raised (if Table name \<notin> objects (db w1) then UndefinedTable name
               else DependentObjectsStillExist name),
       w1\<lparr>sent := sent w1 @ [DropTable name]\<rparr>)"
    using a by (simp only: run_all_append) simp
next
  assume b: "(\<forall>t \<in> set dropped_tables. Table t \<in> objects (db v)) \<and>
    (\<forall>view \<in> set dropped_views. \<forall>t \<in> set dropped_tables.
       (Table t, View view) \<notin> (depends (db v))\<^sup>+) \<and>
    (\<forall>i < length dropped_tables. \<forall>y \<in> objects (db v).
       (y, Table (dropped_tables ! i)) \<in> depends (db v) \<longrightarrow>
       y \<in> Table ` set (take i dropped_tables) \<union> View ` set dropped_views)"
  have "\<forall>pre t post y. dropped_tables = pre @ t # post \<and> y \<in> objects (db v) \<and>
           (y, Table t) \<in> depends (db v) \<longrightarrow> y \<in> Table ` set pre \<union> View ` set dropped_views"
  proof (intro allI impI)
    fix pre t post y
    assume c: "dropped_tables = pre @ t # post \<and> y \<in> objects (db v) \<and>
           (y, Table t) \<in> depends (db v)"
    then have e: "dropped_tables = pre @ t # post" by simp
    have "length pre < length dropped_tables" "dropped_tables ! length pre = t"
      "take (length pre) dropped_tables = pre"
      by (simp_all add: e)
    with b c show "y \<in> Table ` set pre \<union> View ` set dropped_views" by metis
  qed
  with b show "fst (downgrade other v) = Returned"
    by (intro downgrade_children_first) blast+
qed

text \<open>
  The theorem on the empty sample database: the view drops pass, the first table drop
  fails.
\<close>

theorem downgrade_fixed_teardown_witness:
  "teardown = map Execute (take 3 guarded_drops) @
     DropTable (str ''notifications'') # drop 4 teardown \<and>
   Table (str ''notifications'') \<notin> objects (db (sample_world clients_only)) \<and>
   downgrade create_table (sample_world clients_only) =
     (Raised (UndefinedTable (str ''notifications'')),
      (sample_world clients_only)\<lparr>sent := take 4 teardown\<rparr>) \<and>
   (Table (str ''users''), Table (str ''clients'')) \<in> depends (db sample_linked) \<and>
   fst (downgrade create_table sample_linked) = Returned"
proof -
  let ?w = "sample_world clients_only"
  let ?before = "map Execute (take 3 guarded_drops)"
  let ?w1 = "?w\<lparr>sent := sent ?w @ ?before\<rparr>"
  have h1: "teardown = ?before @ DropTable (str ''notifications'') # drop 4 teardown"
    by (simp add: teardown_def dropped_tables_def guarded_drops_def dropped_views_def)
  have e: "objects (db ?w) = {}" by (simp add: sample_world_def)
  have "\<forall>sql \<in> set (take 3 guarded_drops).
          \<exists>x. parse_drop_if_exists sql = Some x \<and> x \<notin> objects (db ?w)"
    using guarded_drop_named e by (metis empty_iff in_set_takeD)
  then have h2: "run_all (map (perform create_table) ?before) ?w = (Returned, ?w1)"
    by (rule run_absent_guarded)
  have h3: "Table (str ''notifications'') \<notin> objects (db ?w1)" using e by simp
  have four: "take 4 teardown = ?before @ [DropTable (str ''notifications'')]"
    by (simp add: teardown_def dropped_tables_def guarded_drops_def dropped_views_def)
  have s: "sent ?w = []" by (simp add: sample_world_def)
  have "teardown = ?before @ DropTable (str ''notifications'') # drop 4 teardown \<and>
      run_all (map (perform create_table) ?before) ?w = (Returned, ?w1) \<and>
      (Table (str ''notifications'') \<notin> objects (db ?w1) \<or>
       (\<exists>y \<in> objects (db ?w1). (y, Table (str ''notifications'')) \<in> depends (db ?w1)))"
    using h1 h2 h3 by blast
  then have "downgrade create_table ?w =
      (Raised (if Table (str ''notifications'') \<notin> objects (db ?w1)
               then UndefinedTable (str ''notifications'')
               else DependentObjectsStillExist (str ''notifications'')),
       ?w1\<lparr>sent := sent ?w1 @ [DropTable (str ''notifications'')]\<rparr>)"
    using downgrade_fixed_teardown [of create_table ?w ?before "str ''notifications''"
        "drop 4 teardown" ?w1]
    by blast
  then have fails: "downgrade create_table ?w =
      (Raised (UndefinedTable (str ''notifications'')), ?w\<lparr>sent := take 4 teardown\<rparr>)"
    using h3 four s by simp
  let ?R = "{(Table (str ''users''), Table (str ''clients'')),
             (View (str ''v_hitl_queue''), Table (str ''processes''))}"
  have o: "objects (db sample_linked) =
      insert (View (str ''v_hitl_queue'')) (Table ` set dropped_tables)"
    and d: "depends (db sample_linked) = ?R"
    by (simp_all add: sample_linked_def)
  have k1: "\<forall>t \<in> set dropped_tables. Table t \<in> objects (db sample_linked)"
    using o by simp
  have "Range (?R\<^sup>+) = Range ?R" by (rule trancl_range)
  then have "View view \<notin> Range (?R\<^sup>+)" for view by simp
  then have k2: "\<forall>view \<in> set dropped_views. \<forall>t \<in> set dropped_tables.
       (Table t, View view) \<notin> (depends (db sample_linked))\<^sup>+"
    unfolding d by blast
  have k3: "\<forall>i < length dropped_tables. \<forall>y \<in> objects (db sample_linked).
       (y, Table (dropped_tables ! i)) \<in> depends (db sample_linked) \<longrightarrow>
       y \<in> Table ` set (take i dropped_tables) \<union> View ` set dropped_views"
  proof (intro allI impI ballI)
    fix i y
    assume i: "i < length dropped_tables"
      and dep: "(y, Table (dropped_tables ! i)) \<in> depends (db sample_linked)"
    from dep d consider
      (users) "y = Table (str ''users'')" "dropped_tables ! i = str ''clients''"
      | (view) "y = View (str ''v_hitl_queue'')"
      by auto
    then show "y \<in> Table ` set (take i dropped_tables) \<union> View ` set dropped_views"
    proof cases
      case users
      have "dropped_tables ! 9 = str ''clients''" "9 < length dropped_tables"
        by (simp_all add: dropped_tables_def)
      with users(2) i have "i = 9"
        using distinct_dropped_tables by (metis nth_eq_iff_index_eq)
      then show ?thesis using users(1) by (simp add: dropped_tables_def)
    next
      case view
      then show ?thesis by (simp add: dropped_views_def)
    qed
  qed
  have "fst (downgrade create_table sample_linked) = Returned"
    using downgrade_fixed_teardown [where other = create_table and v = sample_linked]
      k1 k2 k3
    by blast
  then show ?thesis using h1 e fails d by blast
qed

text \<open>
  C5. When \<open>upgrade\<close> and then \<open>downgrade\<close> both return, the database holds none of the
  objects the teardown names: the ten tables, the three views, the function
  \<open>update_updated_at_column()\<close> and the extension \<open>uuid-ossp\<close>; the whole teardown has been
  sent.
\<close>

theorem upgrade_then_downgrade:
  assumes "upgrade other file w = (Returned, w1)"
    and "downgrade other w1 = (Returned, w2)"
  shows "(\<forall>x \<in> set named_objects. x \<notin> objects (db w2)) \<and> sent w2 = sent w1 @ teardown"
  using downgrade_Returned_absent [OF assms(2)]
    run_requests_Returned_sent [of other teardown w1 w2] assms(2)
  by (simp add: downgrade_teardown)

text \<open>The theorem on the sample schema, which creates the ten tables.\<close>

theorem upgrade_then_downgrade_witness:
  "upgrade create_table sample_file (sample_world sample_schema) = (Returned, sample_upgraded) \<and>
   downgrade create_table sample_upgraded = (Returned, sample_downgraded) \<and>
   list_all (\<lambda>x. x \<notin> objects (db sample_downgraded)) named_objects \<and>
   sent sample_downgraded = sent sample_upgraded @ teardown"
  using upgrade_then_downgrade [OF sample_upgrade sample_downgrade]
    sample_upgrade sample_downgrade
  by (simp add: list_all_iff)

text \<open>
  The tables that a completed \<open>downgrade\<close> drops are ten, not eleven; and after an
  \<open>upgrade\<close> from a schema document that creates the table \<open>clients\<close> only, \<open>downgrade\<close>
  raises at its first table drop and leaves \<open>clients\<close>, one of the named tables, in the
  database.
\<close>

theorem downgrade_ten_tables_counterexample:
  "fst (downgrade create_table sample_upgraded) = Returned \<and>
   length (table_drops (sent (snd (downgrade create_table sample_upgraded)))) = 10 \<and>
   length (table_drops (sent (snd (downgrade create_table sample_upgraded)))) \<noteq> 11 \<and>
   fst (upgrade create_table sample_file (sample_world clients_only)) = Returned \<and>
   fst (downgrade create_table
          (snd (upgrade create_table sample_file (sample_world clients_only)))) =
     Raised (UndefinedTable (str ''notifications'')) \<and>
   Table (str ''clients'') \<in> set named_objects \<and>
   Table (str ''clients'') \<in>
     objects (db (snd (downgrade create_table
       (snd (upgrade create_table sample_file (sample_world clients_only))))))"
proof -
  have "table_drops (sent sample_downgraded) = dropped_tables"
    by (simp add: sample_downgraded_def sample_upgraded_def sample_items_def teardown_def
        guarded_drops_def dropped_views_def dropped_tables_def)
  moreover have "length dropped_tables = 10" by (simp add: dropped_tables_def)
  moreover have "Table (str ''clients'') \<in> set named_objects"
    by (simp add: named_objects_def dropped_tables_def)
  ultimately show ?thesis
    by (simp add: sample_downgrade clients_only_upgrade clients_only_downgrade)
qed

text \<open>
  C6. After a \<open>downgrade\<close> that returned, each guarded drop (the three views, the function,
  the extension) succeeds again and changes nothing but the log, while a second
  \<open>downgrade\<close> passes the three view drops and raises at the first table drop, because the
  table \<open>notifications\<close> does not exist any more.
\<close>

theorem downgrade_twice:
  assumes "downgrade other w = (Returned, w1)"
  shows "(\<forall>sql \<in> set guarded_drops.
            op_execute other sql w1 = (Returned, w1\<lparr>sent := sent w1 @ [Execute sql]\<rparr>)) \<and>
         downgrade other w1 =
           (Raised (UndefinedTable (str ''notifications'')),
            w1\<lparr>sent := sent w1 @ take 4 teardown\<rparr>)"
proof
  have absent: "\<forall>x \<in> set named_objects. x \<notin> objects (db w1)"
    using assms by (rule downgrade_Returned_absent)
  have noop: "\<exists>x. parse_drop_if_exists sql = Some x \<and> x \<notin> objects (db w1)"
    if "sql \<in> set guarded_drops" for sql
    using guarded_drop_named [OF that] absent by blast
  show "\<forall>sql \<in> set guarded_drops.
            op_execute other sql w1 = (Returned, w1\<lparr>sent := sent w1 @ [Execute sql]\<rparr>)"
    using noop by (auto simp: op_execute_def intro: perform_absent_guarded)
  let ?views = "take 3 guarded_drops"
  let ?w2 = "w1\<lparr>sent := sent w1 @ map Execute ?views\<rparr>"
  have "\<forall>sql \<in> set ?views. \<exists>x. parse_drop_if_exists sql = Some x \<and> x \<notin> objects (db w1)"
    using noop by (meson in_set_takeD)
  then have views: "run_all (map (perform other) (map Execute ?views)) w1 = (Returned, ?w2)"
    by (rule run_absent_guarded)
  have "Table (str ''notifications'') \<in> set named_objects"
    by (simp add: named_objects_def dropped_tables_def)
  with absent have "Table (str ''notifications'') \<notin> objects (db ?w2)" by simp
  then have table: "perform other (DropTable (str ''notifications'')) ?w2 =
      (Raised (UndefinedTable (str ''notifications'')),
       ?w2\<lparr>sent := sent ?w2 @ [DropTable (str ''notifications'')]\<rparr>)"
    using perform_drop_table_fails [of "str ''notifications''" ?w2 other] by simp
  have split: "teardown = map Execute ?views @
      DropTable (str ''notifications'') # drop 4 teardown"
    by (simp add: teardown_def dropped_tables_def guarded_drops_def dropped_views_def)
  have four: "take 4 teardown = map Execute ?views @ [DropTable (str ''notifications'')]"
    by (simp add: teardown_def dropped_tables_def guarded_drops_def dropped_views_def)
  have "map (perform other) teardown =
      map (perform other) (map Execute ?views) @
        map (perform other) (DropTable (str ''notifications'') # drop 4 teardown)"
    using arg_cong [OF split, of "map (perform other)"] by (simp only: map_append)
  then have "downgrade other w1 =
      run_all (map (perform other) (map Execute ?views) @
        map (perform other) (DropTable (str ''notifications'') # drop 4 teardown)) w1"
    by (simp only: downgrade_teardown)
  then show "downgrade other w1 =
           (Raised (UndefinedTable (str ''notifications'')),
            w1\<lparr>sent := sent w1 @ take 4 teardown\<rparr>)"
    using views table by (simp only: run_all_append four) simp
qed

text \<open>The theorem on the sample database after its upgrade and downgrade.\<close>

theorem downgrade_twice_witness:
  "downgrade create_table sample_upgraded = (Returned, sample_downgraded) \<and>
   list_all
     (\<lambda>sql. op_execute create_table sql sample_downgraded =
        (Returned, sample_downgraded\<lparr>sent := sent sample_downgraded @ [Execute sql]\<rparr>))
     guarded_drops \<and>
   downgrade create_table sample_downgraded =
     (Raised (UndefinedTable (str ''notifications'')),
      sample_downgraded\<lparr>sent := sent sample_downgraded @ take 4 teardown\<rparr>)"
  using downgrade_twice [OF sample_downgrade] sample_downgrade
  by (simp add: list_all_iff)

end

